theory Spec2Isabelle
  imports Complex_Main "HOL-Library.FSet" "HOL-Library.AList" "HOL-Library.Multiset"
begin

section \<open>Data model of \<open>Ranked/Election.py\<close>\<close>

text \<open>
  The Python exceptions that the modelled code can raise: \<open>xs[0]\<close> on an empty list,
  a dictionary read of an absent key, \<open>list.index\<close> of an absent element and
  \<open>math.log2(0)\<close>, and a division by zero.
\<close>

datatype error = IndexError | KeyError | ValueError | ZeroDivisionError

text \<open>
  A ballot is a dictionary with the keys \<open>"weight"\<close> and \<open>"ranking"\<close>. Candidates are any
  hashable Python values; the model is polymorphic in their type.
\<close>

record 'c ballot =
  weight :: int
  ranking :: "'c list"

text \<open>
  A node of the Sankey diagram is a dictionary with the keys \<open>"name"\<close> and \<open>"layer"\<close> and,
  only where the code writes it, \<open>"value"\<close>: \<open>node_value = None\<close> is the dictionary without
  that key, so that equality of nodes is equality of the Python dictionaries.
\<close>

record 'c node =
  name :: 'c
  layer :: nat
  node_value :: "nat option"

record link =
  source :: nat
  target :: nat
  link_value :: nat

record 'c sankey =
  nodes :: "'c node list"
  links :: "link list"

text \<open>
  The \<open>Election\<close> object. \<open>candidates\<close> is a Python dictionary, which keeps its keys in
  insertion order; the order is observable (sorting is stable, the winner is the first key),
  so it is an association list with \<open>AList.update\<close> for \<open>d[k] = v\<close> and \<open>AList.delete\<close> for
  \<open>del d[k]\<close>. \<open>eliminated\<close> is a Python set, hence finite.
\<close>

record 'c election =
  ballots :: "'c ballot list"
  candidates :: "('c \<times> 'c ballot list) list"
  winner :: "'c option"
  eliminated :: "'c fset"
  number_of_candidates :: nat
  sankey_obj :: "'c sankey"

text \<open>\<open>__init__\<close>: the dictionary comprehension keeps the first occurrence of a repeated name.\<close>

definition Election :: "'c ballot list \<Rightarrow> 'c list \<Rightarrow> 'c election" where
  "Election bs cs =
     \<lparr> ballots = bs,
       candidates = fold (\<lambda>c d. AList.update c [] d) cs [],
       winner = None,
       eliminated = {||},
       number_of_candidates = 0,
       sankey_obj = \<lparr> nodes = [], links = [] \<rparr> \<rparr>"

definition add_ballot :: "'c ballot \<Rightarrow> 'c election \<Rightarrow> 'c election" where
  "add_ballot b s = s\<lparr> ballots := ballots s @ [b] \<rparr>"

section \<open>Assignment of the ballots\<close>

text \<open>\<open>self.candidates[c].append(b)\<close>: a \<open>KeyError\<close> when \<open>c\<close> is not a key.\<close>

definition award :: "'c \<Rightarrow> 'c ballot \<Rightarrow> ('c \<times> 'c ballot list) list \<Rightarrow> error + ('c \<times> 'c ballot list) list" where
  "award c b d =
     (case map_of d c of
        None \<Rightarrow> Inl KeyError
      | Some held \<Rightarrow> Inr (AList.update c (held @ [b]) d))"

text \<open>The loop of \<open>assign_ballots\<close>; \<open>ballot["ranking"][0]\<close> raises on an empty ranking.\<close>

fun assign_loop :: "'c ballot list \<Rightarrow> ('c \<times> 'c ballot list) list \<Rightarrow> error + ('c \<times> 'c ballot list) list" where
  "assign_loop [] d = Inr d"
| "assign_loop (b # bs) d =
     (case ranking b of
        [] \<Rightarrow> Inl IndexError
      | first_choice # _ \<Rightarrow>
          (case award first_choice b d of
             Inl e \<Rightarrow> Inl e
           | Inr d' \<Rightarrow> assign_loop bs d'))"

definition assign_ballots :: "'c election \<Rightarrow> error + 'c election" where
  "assign_ballots s =
     (case assign_loop (ballots s) (candidates s) of
        Inl e \<Rightarrow> Inl e
      | Inr d \<Rightarrow> Inr (s\<lparr> number_of_candidates := length (candidates s), candidates := d \<rparr>))"

section \<open>Ranking and tie-break\<close>

text \<open>
  \<open>len(self.candidates[g])\<close> for a key \<open>g\<close> of the dictionary. The default is never read:
  every use below is at a key of the same dictionary.
\<close>

definition tally :: "('c \<times> 'c ballot list) list \<Rightarrow> 'c \<Rightarrow> nat" where
  "tally d g = (case map_of d g of None \<Rightarrow> 0 | Some held \<Rightarrow> length held)"

text \<open>\<open>sorted\<close> is stable, as \<open>sort_key\<close> is; the key is the negated count, an integer.\<close>

definition sort_candidates :: "'c election \<Rightarrow> 'c list" where
  "sort_candidates s = sort_key (\<lambda>g. - int (tally (candidates s) g)) (map fst (candidates s))"

text \<open>
  \<open>resolve_tie_random\<close>. \<open>random.choice(xs)\<close> is \<open>xs[i]\<close> for a random index \<open>i\<close> below
  \<open>len(xs)\<close>; the model takes the draw \<open>r\<close> as an argument and reduces it modulo the length.
\<close>

definition tied_candidates :: "('c \<times> 'c ballot list) list \<Rightarrow> nat \<Rightarrow> 'c list \<Rightarrow> 'c list \<Rightarrow> 'c list" where
  "tied_candidates d tally0 reverse_ranked start =
     fold (\<lambda>c tied. if tally d c = tally0 \<and> c \<notin> set tied then tied @ [c] else tied)
          reverse_ranked start"

definition resolve_tie_random :: "nat \<Rightarrow> 'c election \<Rightarrow> error + 'c" where
  "resolve_tie_random r s =
     (case rev (sort_candidates s) of
        [] \<Rightarrow> Inl IndexError
      | c0 # rest \<Rightarrow>
          (let tied = tied_candidates (candidates s) (tally (candidates s) c0) (c0 # rest) [c0]
           in Inr (tied ! (r mod length tied))))"

section \<open>One elimination round\<close>

text \<open>
  The scan of \<open>ballot["ranking"]\<close> for the first candidate that is not in the eliminated
  set; \<open>None\<close> when the inner \<open>for\<close> ends without \<open>break\<close>.
\<close>

definition next_choice :: "'c fset \<Rightarrow> 'c ballot \<Rightarrow> 'c option" where
  "next_choice elim b = find (\<lambda>c. c |\<notin>| elim) (ranking b)"

text \<open>\<open>transfers\<close> is a dictionary too: its key order is the order of the real links.\<close>

definition record_transfer :: "'c \<Rightarrow> ('c \<times> nat) list \<Rightarrow> ('c \<times> nat) list" where
  "record_transfer c transfers =
     (case map_of transfers c of
        Some n \<Rightarrow> AList.update c (n + 1) transfers
      | None \<Rightarrow> AList.update c 1 transfers)"

fun transfer_loop ::
  "'c fset \<Rightarrow> 'c ballot list \<Rightarrow> ('c \<times> 'c ballot list) list \<times> ('c \<times> nat) list \<Rightarrow>
     error + (('c \<times> 'c ballot list) list \<times> ('c \<times> nat) list)" where
  "transfer_loop elim [] acc = Inr acc"
| "transfer_loop elim (b # bs) (d, transfers) =
     (case next_choice elim b of
        None \<Rightarrow> transfer_loop elim bs (d, transfers)
      | Some c \<Rightarrow>
          (case award c b d of
             Inl e \<Rightarrow> Inl e
           | Inr d' \<Rightarrow> transfer_loop elim bs (d', record_transfer c transfers)))"

text \<open>\<open>list.index\<close>: the position of the first equal element, else a \<open>ValueError\<close>.\<close>

fun index_of :: "'a list \<Rightarrow> 'a \<Rightarrow> error + nat" where
  "index_of [] x = Inl ValueError"
| "index_of (y # ys) x =
     (if y = x then Inr 0
      else (case index_of ys x of Inl e \<Rightarrow> Inl e | Inr i \<Rightarrow> Inr (Suc i)))"

text \<open>
  The node a link starts from: looked up with a \<open>"value"\<close> key only while
  \<open>sankey_layer < 3\<close>, that is, only when it lies in layer 1.
\<close>

definition fake_node_from :: "('c \<times> nat) list \<Rightarrow> nat \<Rightarrow> 'c \<Rightarrow> error + 'c node" where
  "fake_node_from starting_values sankey_layer c =
     (if sankey_layer < 3 then
        (case map_of starting_values c of
           None \<Rightarrow> Inl KeyError
         | Some v \<Rightarrow> Inr \<lparr> name = c, layer = sankey_layer - 1, node_value = Some v \<rparr>)
      else Inr \<lparr> name = c, layer = sankey_layer - 1, node_value = None \<rparr>)"

definition make_link ::
  "'c node list \<Rightarrow> nat \<Rightarrow> ('c \<times> nat) list \<Rightarrow> 'c \<Rightarrow> 'c \<Rightarrow> ('c \<times> nat) list \<Rightarrow> 'c \<Rightarrow> error + link" where
  "make_link ns sankey_layer starting_values c_from c_to votes_of c_votes =
     (case fake_node_from starting_values sankey_layer c_from of
        Inl e \<Rightarrow> Inl e
      | Inr node_from \<Rightarrow>
          (case index_of ns node_from of
             Inl e \<Rightarrow> Inl e
           | Inr index_from \<Rightarrow>
               (case index_of ns \<lparr> name = c_to, layer = sankey_layer, node_value = None \<rparr> of
                  Inl e \<Rightarrow> Inl e
                | Inr index_to \<Rightarrow>
                    (case map_of votes_of c_votes of
                       None \<Rightarrow> Inl KeyError
                     | Some votes \<Rightarrow>
                         Inr \<lparr> source = index_from, target = index_to, link_value = votes \<rparr>))))"

text \<open>A self-link of a surviving candidate, and a real link from the last-place candidate.\<close>

definition self_link :: "'c node list \<Rightarrow> nat \<Rightarrow> ('c \<times> nat) list \<Rightarrow> 'c \<Rightarrow> error + link" where
  "self_link ns sankey_layer starting_values c =
     make_link ns sankey_layer starting_values c c starting_values c"

definition real_link ::
  "'c node list \<Rightarrow> nat \<Rightarrow> ('c \<times> nat) list \<Rightarrow> 'c \<Rightarrow> ('c \<times> nat) list \<Rightarrow> 'c \<Rightarrow> error + link" where
  "real_link ns sankey_layer starting_values last_place transfers c =
     make_link ns sankey_layer starting_values last_place c transfers c"

fun link_loop :: "('c \<Rightarrow> error + link) \<Rightarrow> 'c list \<Rightarrow> link list \<Rightarrow> error + link list" where
  "link_loop f [] acc = Inr acc"
| "link_loop f (c # cs) acc =
     (case f c of Inl e \<Rightarrow> Inl e | Inr l \<Rightarrow> link_loop f cs (acc @ [l]))"

text \<open>
  The body of the \<open>while\<close> loop of \<open>single_winner_rcv\<close>, on the pair of the local
  \<open>sankey_layer\<close> and the object; \<open>r\<close> is the random draw of this round. It returns the
  new \<open>sankey_layer\<close> with the new object.
\<close>

definition rcv_round :: "nat \<Rightarrow> nat \<Rightarrow> 'c election \<Rightarrow> error + (nat \<times> 'c election)" where
  "rcv_round r sankey_layer s =
     (case resolve_tie_random r s of
        Inl e \<Rightarrow> Inl e
      | Inr last_place \<Rightarrow>
          (let elim = finsert last_place (eliminated s) in
           case map_of (candidates s) last_place of
             None \<Rightarrow> Inl KeyError
           | Some held \<Rightarrow>
               if length held = 0 then
                 Inr (sankey_layer,
                      s\<lparr> eliminated := elim,
                         candidates := AList.delete last_place (candidates s) \<rparr>)
               else
                 (let starting_values = map (\<lambda>(c, bs). (c, length bs)) (candidates s) in
                  case transfer_loop elim held (candidates s, []) of
                    Inl e \<Rightarrow> Inl e
                  | Inr (d, transfers) \<Rightarrow>
                      (let d' = AList.delete last_place d;
                           sankey_layer' = sankey_layer + 1;
                           ns = nodes (sankey_obj s) @
                                map (\<lambda>c. \<lparr> name = c, layer = sankey_layer', node_value = None \<rparr>)
                                    (filter (\<lambda>c. c |\<notin>| elim) (map fst d'))
                       in case link_loop (self_link ns sankey_layer' starting_values)
                                 (filter (\<lambda>c. c \<noteq> last_place) (map fst d')) [] of
                            Inl e \<Rightarrow> Inl e
                          | Inr self_links \<Rightarrow>
                              (case link_loop
                                      (real_link ns sankey_layer' starting_values last_place transfers)
                                      (map fst transfers) self_links of
                                 Inl e \<Rightarrow> Inl e
                               | Inr all_links \<Rightarrow>
                                   Inr (sankey_layer',
                                        s\<lparr> eliminated := elim,
                                           candidates := d',
                                           sankey_obj :=
                                             \<lparr> nodes = ns,
                                               links = links (sankey_obj s) @ all_links \<rparr> \<rparr>))))))"

section \<open>The single-winner run\<close>

text \<open>
  The \<open>while\<close> loop. \<open>rnd\<close> is the sequence of the random draws still to come: the round
  uses \<open>rnd 0\<close> and leaves the rest. The guard is an integer comparison, as in Python,
  where \<open>number_of_candidates - 1\<close> is \<open>-1\<close> for an election without candidates.
\<close>

definition loop_guard :: "'c election \<Rightarrow> bool" where
  "loop_guard s \<longleftrightarrow> int (fcard (eliminated s)) < int (number_of_candidates s) - 1"

lemma keys_award: "award c b d = Inr d' \<Longrightarrow> map fst d' = map fst d"
  by (force simp: award_def update_keys split: option.splits dest: map_of_SomeD)

lemma keys_transfer_loop:
  "transfer_loop elim bs acc = Inr acc' \<Longrightarrow> map fst (fst acc') = map fst (fst acc)"
proof (induction elim bs acc rule: transfer_loop.induct)
  case (2 elim b bs d transfers)
  then show ?case
    by (auto split: option.splits sum.splits dest: keys_award)
qed simp

lemma length_delete_less:
  "k \<in> set (map fst d) \<Longrightarrow> length (AList.delete k d) < length d"
proof (induction d)
  case (Cons p d)
  show ?case
  proof (cases "fst p = k")
    case True
    then show ?thesis
      using length_delete_le [of k d] by (cases p) (simp add: less_Suc_eq_le)
  next
    case False
    with Cons.prems have "k \<in> set (map fst d)" by auto
    with Cons.IH False show ?thesis by (cases p) auto
  qed
qed simp

lemma rcv_round_shrinks:
  assumes "rcv_round r l s = Inr (l', s')"
  shows "length (candidates s') < length (candidates s)"
proof -
  from assms obtain last_place held where
    lp: "map_of (candidates s) last_place = Some held"
    and cases: "candidates s' = AList.delete last_place (candidates s) \<or>
      (\<exists>d t. transfer_loop (finsert last_place (eliminated s)) held (candidates s, []) = Inr (d, t)
         \<and> candidates s' = AList.delete last_place d)"
    by (auto simp: rcv_round_def Let_def split: sum.splits option.splits if_splits)
  from lp have mem: "last_place \<in> set (map fst (candidates s))"
    by (metis map_of_eq_None_iff option.distinct(1) set_map)
  from cases show ?thesis
  proof
    assume "candidates s' = AList.delete last_place (candidates s)"
    with mem show ?thesis by (simp add: length_delete_less)
  next
    assume "\<exists>d t. transfer_loop (finsert last_place (eliminated s)) held (candidates s, []) = Inr (d, t)
         \<and> candidates s' = AList.delete last_place d"
    then obtain d t where
      tl: "transfer_loop (finsert last_place (eliminated s)) held (candidates s, []) = Inr (d, t)"
      and eq: "candidates s' = AList.delete last_place d" by blast
    from keys_transfer_loop [OF tl] have k: "map fst d = map fst (candidates s)" by simp
    with mem have "last_place \<in> set (map fst d)" by simp
    then have "length (AList.delete last_place d) < length d" by (rule length_delete_less)
    moreover from k have "length d = length (candidates s)" by (metis length_map)
    ultimately show ?thesis using eq by simp
  qed
qed

function rcv_loop :: "(nat \<Rightarrow> nat) \<Rightarrow> nat \<times> 'c election \<Rightarrow> error + (nat \<times> 'c election)" where
  "rcv_loop rnd (sankey_layer, s) =
     (if loop_guard s then
        (case rcv_round (rnd 0) sankey_layer s of
           Inl e \<Rightarrow> Inl e
         | Inr ls' \<Rightarrow> rcv_loop (\<lambda>i. rnd (Suc i)) ls')
      else Inr (sankey_layer, s))"
  by pat_completeness auto
termination
  by (relation "measure (\<lambda>(rnd, ls). length (candidates (snd ls)))")
     (auto dest: rcv_round_shrinks)

text \<open>
  The states at the round boundaries of the same loop, in order: the state the loop starts
  from, then the state after each completed round. A round that raises ends the list.
\<close>

function rcv_trace :: "(nat \<Rightarrow> nat) \<Rightarrow> nat \<times> 'c election \<Rightarrow> (nat \<times> 'c election) list" where
  "rcv_trace rnd (sankey_layer, s) =
     (sankey_layer, s) #
     (if loop_guard s then
        (case rcv_round (rnd 0) sankey_layer s of
           Inl e \<Rightarrow> []
         | Inr ls' \<Rightarrow> rcv_trace (\<lambda>i. rnd (Suc i)) ls')
      else [])"
  by pat_completeness auto
termination
  by (relation "measure (\<lambda>(rnd, ls). length (candidates (snd ls)))")
     (auto dest: rcv_round_shrinks)

text \<open>
  Lines 111 to 121 of \<open>single_winner_rcv\<close>: the assignment, \<open>sankey_layer = 1\<close> and the
  nodes of the candidates that hold a ballot, each with its count as \<open>"value"\<close>.
\<close>

definition first_nodes :: "('c \<times> 'c ballot list) list \<Rightarrow> 'c node list" where
  "first_nodes d =
     map (\<lambda>c. \<lparr> name = c, layer = 1, node_value = Some (tally d c) \<rparr>)
         (filter (\<lambda>c. tally d c > 0) (map fst d))"

definition rcv_start :: "'c election \<Rightarrow> error + (nat \<times> 'c election)" where
  "rcv_start s =
     (case assign_ballots s of
        Inl e \<Rightarrow> Inl e
      | Inr s1 \<Rightarrow>
          Inr (1, s1\<lparr> sankey_obj :=
                       \<lparr> nodes = nodes (sankey_obj s1) @ first_nodes (candidates s1),
                         links = links (sankey_obj s1) \<rparr> \<rparr>))"

text \<open>
  \<open>single_winner_rcv\<close>. The last line reads the first key of the dictionary and raises an
  \<open>IndexError\<close> when there is none.
\<close>

definition single_winner_rcv :: "(nat \<Rightarrow> nat) \<Rightarrow> 'c election \<Rightarrow> error + 'c election" where
  "single_winner_rcv rnd s =
     (case rcv_start s of
        Inl e \<Rightarrow> Inl e
      | Inr ls \<Rightarrow>
          (case rcv_loop rnd ls of
             Inl e \<Rightarrow> Inl e
           | Inr ls' \<Rightarrow>
               (case map fst (candidates (snd ls')) of
                  [] \<Rightarrow> Inl IndexError
                | w # _ \<Rightarrow> Inr ((snd ls')\<lparr> winner := Some w \<rparr>))))"

definition single_winner_trace :: "(nat \<Rightarrow> nat) \<Rightarrow> 'c election \<Rightarrow> (nat \<times> 'c election) list" where
  "single_winner_trace rnd s =
     (case rcv_start s of
        Inl e \<Rightarrow> []
      | Inr ls \<Rightarrow> rcv_trace rnd ls)"

section \<open>The shuffle, the quota and the status text\<close>

text \<open>
  \<open>riffle\<close>: \<open>math.log2\<close> raises a \<open>ValueError\<close> at 0 and is evaluated before
  \<open>random.randrange\<close>. \<open>u\<close> is the draw of \<open>randrange(0, n)\<close>, reduced modulo \<open>n\<close>. The
  floating-point product and sum are modelled by the real ones. \<open>shuffle i\<close> is the
  permutation that the \<open>i\<close>-th call of \<open>random.shuffle\<close> applies.
\<close>

definition riffle_shuffles :: "nat \<Rightarrow> nat \<Rightarrow> error + nat" where
  "riffle_shuffles n u =
     (if n = 0 then Inl ValueError
      else Inr (nat \<lceil>(3 / 2) * log 2 (real n) + real (u mod n)\<rceil>))"

definition riffle :: "(nat \<Rightarrow> 'a list \<Rightarrow> 'a list) \<Rightarrow> nat \<Rightarrow> 'a list \<Rightarrow> error + 'a list" where
  "riffle shuffle u item =
     (case riffle_shuffles (length item) u of
        Inl e \<Rightarrow> Inl e
      | Inr k \<Rightarrow> Inr (fold shuffle [0..<k] item))"

text \<open>
  \<open>add_candidates\<close>: \<open>uniq\<close> is the order in which \<open>list(set(candidates))\<close> lists the
  distinct names.
\<close>

definition add_candidates ::
  "('c list \<Rightarrow> 'c list) \<Rightarrow> (nat \<Rightarrow> 'c list \<Rightarrow> 'c list) \<Rightarrow> nat \<Rightarrow> 'c list \<Rightarrow> 'c election \<Rightarrow>
     error + 'c election" where
  "add_candidates uniq shuffle u cs s =
     (case riffle shuffle u (uniq cs) of
        Inl e \<Rightarrow> Inl e
      | Inr cs' \<Rightarrow> Inr (s\<lparr> candidates := fold (\<lambda>c d. AList.update c [] d) cs' (candidates s) \<rparr>))"

text \<open>
  \<open>droop\<close> reads \<open>self.winner\<close>, not its second argument. The quotient is a float division
  followed by \<open>math.floor\<close>, which is the integer floor division for counts below \<open>2^53\<close>.
\<close>

definition droop :: "int \<Rightarrow> 'c election \<Rightarrow> error + bool" where
  "droop seats s =
     (case winner s of
        None \<Rightarrow> Inl KeyError
      | Some w \<Rightarrow>
          (case map_of (candidates s) w of
             None \<Rightarrow> Inl KeyError
           | Some held \<Rightarrow>
               if seats = 0 then Inl ZeroDivisionError
               else Inr (int (length held) > int (length (ballots s)) div seats)))"

text \<open>
  \<open>__repr__\<close>: the four integers that the text shows, under the names of the local
  variables and, for the last one, of its label.
\<close>

record status =
  num_candidates :: int
  num_ballots :: int
  active_candidates :: int
  active_ballots :: int
  exhausted_ballots :: int

definition repr_status :: "'c election \<Rightarrow> status" where
  "repr_status s =
     (let num_candidates = int (number_of_candidates s);
          num_ballots = int (length (ballots s));
          active_candidates = num_candidates - int (fcard (eliminated s));
          active_ballots = num_ballots - (\<Sum>c \<leftarrow> map fst (candidates s). int (tally (candidates s) c))
      in \<lparr> num_candidates = num_candidates,
           num_ballots = num_ballots,
           active_candidates = active_candidates,
           active_ballots = active_ballots,
           exhausted_ballots = num_ballots - active_ballots \<rparr>)"

section \<open>Notions used to state the properties\<close>

text \<open>
  The comment above the transfer loop calls a ballot exhausted when all the candidates on
  its preference list have been eliminated.
\<close>

definition exhausted :: "'c fset \<Rightarrow> 'c ballot \<Rightarrow> bool" where
  "exhausted elim b \<longleftrightarrow> list_all (\<lambda>c. c |\<in>| elim) (ranking b)"

text \<open>
  What holds of the object at every round boundary: the keys of \<open>candidates\<close> are distinct
  and not eliminated, every held ballot is with the first candidate of its ranking that is
  not eliminated, the ballots are the held ones together with the exhausted ones, and the
  active and the eliminated candidates together are the candidates counted at the start.
\<close>

definition round_inv :: "'c election \<Rightarrow> bool" where
  "round_inv s \<longleftrightarrow>
     distinct (map fst (candidates s)) \<and>
     (\<forall>c \<in> set (map fst (candidates s)). c |\<notin>| eliminated s) \<and>
     (\<forall>p \<in> set (candidates s). \<forall>b \<in> set (snd p). next_choice (eliminated s) b = Some (fst p)) \<and>
     mset (ballots s) =
       mset (concat (map snd (candidates s))) +
       filter_mset (\<lambda>b. next_choice (eliminated s) b = None) (mset (ballots s)) \<and>
     length (candidates s) + fcard (eliminated s) = number_of_candidates s"

text \<open>
  The nodes of a flow graph whose newest layer is \<open>l\<close>: the layers run from 1 to \<open>l\<close>, and a
  node has a \<open>"value"\<close> key exactly in layer 1.
\<close>

definition layered :: "nat \<Rightarrow> 'c node list \<Rightarrow> bool" where
  "layered l ns \<longleftrightarrow> 1 \<le> l \<and> list_all (\<lambda>n. 1 \<le> layer n \<and> layer n \<le> l \<and> (node_value n = None \<longleftrightarrow> layer n \<noteq> 1)) ns"

text \<open>
  What the lookups of a round need of the flow graph whose newest layer is \<open>l\<close>: in layer 1
  every active candidate that holds a ballot has its node with its count as value, and in
  a later layer every active candidate has its node, without value.
\<close>

definition graph_ok :: "nat \<Rightarrow> 'c election \<Rightarrow> bool" where
  "graph_ok l s \<longleftrightarrow>
     1 \<le> l \<and>
     (l = 1 \<longrightarrow> (\<forall>c \<in> set (map fst (candidates s)). 0 < tally (candidates s) c \<longrightarrow>
        \<lparr> name = c, layer = 1, node_value = Some (tally (candidates s) c) \<rparr>
          \<in> set (nodes (sankey_obj s)))) \<and>
     (2 \<le> l \<longrightarrow> (\<forall>c \<in> set (map fst (candidates s)).
        \<lparr> name = c, layer = l, node_value = None \<rparr> \<in> set (nodes (sankey_obj s))))"

text \<open>
  The same ballot, list of held ballots and object with every weight set to 0: two objects
  with equal images differ in the weights of their ballots only.
\<close>

definition unweighted :: "'c ballot \<Rightarrow> 'c ballot" where
  "unweighted b = b\<lparr> weight := 0 \<rparr>"

definition unweighted_held :: "('c \<times> 'c ballot list) list \<Rightarrow> ('c \<times> 'c ballot list) list" where
  "unweighted_held d = map (\<lambda>(c, h). (c, map unweighted h)) d"

definition erase_weights :: "'c election \<Rightarrow> 'c election" where
  "erase_weights s =
     s\<lparr> ballots := map unweighted (ballots s), candidates := unweighted_held (candidates s) \<rparr>"

text \<open>The ballots of a small election, on which the statements below are evaluated.\<close>

definition demo_ballots :: "string ballot list" where
  "demo_ballots =
     [\<lparr> weight = 1, ranking = [''A''] \<rparr>, \<lparr> weight = 1, ranking = [''A''] \<rparr>,
      \<lparr> weight = 1, ranking = [''B'', ''A''] \<rparr>, \<lparr> weight = 1, ranking = [''B''] \<rparr>]"


text \<open>
  The round boundaries of the run of these ballots with the candidates \<open>A\<close> and \<open>B\<close>, and
  with \<open>A\<close>, \<open>B\<close> and \<open>C\<close>, when every random draw is 0.
\<close>

definition demo_trace :: "(nat \<times> string election) list" where
  "demo_trace = single_winner_trace (\<lambda>_. 0) (Election demo_ballots [''A'', ''B''])"

definition demo_trace3 :: "(nat \<times> string election) list" where
  "demo_trace3 = single_winner_trace (\<lambda>_. 0) (Election demo_ballots [''A'', ''B'', ''C''])"

text \<open>The ballots of that election with other weights.\<close>

definition demo_weighted :: "string ballot list" where
  "demo_weighted =
     [\<lparr> weight = 5, ranking = [''A''] \<rparr>, \<lparr> weight = 0, ranking = [''A''] \<rparr>,
      \<lparr> weight = - 3, ranking = [''B'', ''A''] \<rparr>, \<lparr> weight = 7, ranking = [''B''] \<rparr>]"

section \<open>Dictionaries\<close>

lemma set_update_subset: "set (AList.update k v d) \<subseteq> insert (k, v) (set d)"
  by (induction d) auto

lemma map_of_Some_key: "map_of d k = Some v \<Longrightarrow> k \<in> set (map fst d)"
  by (force dest: map_of_SomeD)

lemma mset_held_update:
  "distinct (map fst d) \<Longrightarrow> map_of d c = Some h \<Longrightarrow>
     mset (concat (map snd (AList.update c h' d))) + mset h = mset (concat (map snd d)) + mset h'"
proof (induction d)
  case (Cons p d)
  show ?case
  proof (cases "fst p = c")
    case True
    with Cons.prems show ?thesis by (cases p) auto
  next
    case False
    with Cons.prems have "map_of d c = Some h" "distinct (map fst d)" by (cases p; auto)+
    from Cons.IH [OF this(2,1)] False show ?thesis by (cases p) (auto simp: algebra_simps)
  qed
qed simp

lemma mset_held_delete:
  "distinct (map fst d) \<Longrightarrow> map_of d c = Some h \<Longrightarrow>
     mset (concat (map snd (AList.delete c d))) + mset h = mset (concat (map snd d))"
proof (induction d)
  case (Cons p d)
  show ?case
  proof (cases "fst p = c")
    case True
    with Cons.prems have "c \<notin> fst ` set d" by (cases p) auto
    with True Cons.prems show ?thesis by (cases p) auto
  next
    case False
    with Cons.prems have "map_of d c = Some h" "distinct (map fst d)" by (cases p; auto)+
    from Cons.IH [OF this(2,1)] False show ?thesis by (cases p) (auto simp: algebra_simps)
  qed
qed simp

lemma length_delete_distinct:
  "distinct (map fst d) \<Longrightarrow> k \<in> set (map fst d) \<Longrightarrow> Suc (length (AList.delete k d)) = length d"
proof (induction d)
  case (Cons p d)
  show ?case
  proof (cases "fst p = k")
    case True
    with Cons.prems have "k \<notin> fst ` set d" by (cases p) auto
    with True show ?thesis by (cases p) auto
  next
    case False
    with Cons show ?thesis by (cases p) auto
  qed
qed simp

section \<open>The construction\<close>

lemma fold_update_distinct:
  "distinct (map fst d) \<Longrightarrow> distinct (map fst (fold (\<lambda>c d. AList.update c [] d) cs d))"
  by (induction cs arbitrary: d) (auto simp: distinct_update)

lemma fold_update_keys:
  "set (map fst (fold (\<lambda>c d. AList.update c [] d) cs d)) = set (map fst d) \<union> set cs"
  by (induction cs arbitrary: d) (auto simp: dom_update)

lemma fold_update_empty:
  "\<forall>p \<in> set d. snd p = [] \<Longrightarrow> \<forall>p \<in> set (fold (\<lambda>c d. AList.update c [] d) cs d). snd p = []"
proof (induction cs arbitrary: d)
  case (Cons c cs)
  have "\<forall>p \<in> set (AList.update c [] d). snd p = []"
    using Cons.prems set_update_subset [of c "[]" d] by auto
  from Cons.IH [OF this] show ?case by simp
qed simp

section \<open>The scan of a ranking\<close>

lemma next_choice_not_eliminated: "next_choice E b = Some c \<Longrightarrow> c |\<notin>| E \<and> c \<in> set (ranking b)"
  by (auto simp: next_choice_def find_Some_iff)

lemma next_choice_None: "next_choice E b = None \<longleftrightarrow> set (ranking b) \<subseteq> fset E"
  by (auto simp: next_choice_def find_None_iff)

lemma find_conj:
  "find P xs = Some c \<Longrightarrow> Q c \<Longrightarrow> find (\<lambda>c. Q c \<and> P c) xs = Some c"
  by (induction xs) (auto split: if_splits)

lemma next_choice_finsert:
  "next_choice E b = Some c \<Longrightarrow> c \<noteq> x \<Longrightarrow> next_choice (finsert x E) b = Some c"
  by (simp add: next_choice_def find_conj)

lemma next_choice_None_finsert:
  "next_choice E b = None \<Longrightarrow> next_choice (finsert x E) b = None"
  by (auto simp: next_choice_None)

section \<open>The transfer loop\<close>

lemma map_of_award:
  "award c b d = Inr d' \<Longrightarrow> \<exists>h. map_of d c = Some h \<and> map_of d' = (map_of d)(c \<mapsto> h @ [b])"
  by (auto simp: award_def update_conv' split: option.splits)

lemma map_of_transfer_loop:
  "transfer_loop E bs (d, t) = Inr (d', t') \<Longrightarrow>
     map_of d' c = map_option (\<lambda>h. h @ filter (\<lambda>b. next_choice E b = Some c) bs) (map_of d c)"
proof (induction bs arbitrary: d t)
  case (Cons b bs)
  show ?case
  proof (cases "next_choice E b")
    case None
    with Cons show ?thesis by simp
  next
    case (Some c0)
    with Cons.prems obtain d1 where a: "award c0 b d = Inr d1"
      and l: "transfer_loop E bs (d1, record_transfer c0 t) = Inr (d', t')"
      by (auto split: sum.splits)
    from map_of_award [OF a] obtain h where h: "map_of d c0 = Some h"
      and m: "map_of d1 = (map_of d)(c0 \<mapsto> h @ [b])" by blast
    from Cons.IH [OF l] m h Some show ?thesis by (cases "c = c0") auto
  qed
next
  case Nil
  then show ?case by (cases "map_of d c") auto
qed

lemma transfer_loop_targets:
  "transfer_loop E bs (d, t) = Inr (d', t') \<Longrightarrow> b \<in> set bs \<Longrightarrow> next_choice E b = Some c \<Longrightarrow>
     c \<in> set (map fst d)"
proof (induction bs arbitrary: d t)
  case (Cons b0 bs)
  show ?case
  proof (cases "next_choice E b0")
    case None
    with Cons show ?thesis by auto
  next
    case (Some c0)
    with Cons.prems obtain d1 where a: "award c0 b0 d = Inr d1"
      and l: "transfer_loop E bs (d1, record_transfer c0 t) = Inr (d', t')"
      by (auto split: sum.splits)
    from map_of_award [OF a] have k0: "c0 \<in> set (map fst d)" by (auto dest: map_of_Some_key)
    show ?thesis
    proof (cases "b = b0")
      case True
      with Some Cons.prems k0 show ?thesis by simp
    next
      case False
      with Cons.prems have "b \<in> set bs" by simp
      from Cons.IH [OF l this Cons.prems(3)] keys_award [OF a] show ?thesis by simp
    qed
  qed
qed simp

lemma distinct_award: "award c b d = Inr d' \<Longrightarrow> distinct (map fst d) \<Longrightarrow> distinct (map fst d')"
  by (simp add: keys_award)

lemma mset_transfer_loop:
  "transfer_loop E bs (d, t) = Inr (d', t') \<Longrightarrow> distinct (map fst d) \<Longrightarrow>
     mset (concat (map snd d')) =
       mset (concat (map snd d)) + filter_mset (\<lambda>b. next_choice E b \<noteq> None) (mset bs)"
proof (induction bs arbitrary: d t)
  case (Cons b bs)
  show ?case
  proof (cases "next_choice E b")
    case None
    with Cons show ?thesis by simp
  next
    case (Some c0)
    with Cons.prems obtain d1 where a: "award c0 b d = Inr d1"
      and l: "transfer_loop E bs (d1, record_transfer c0 t) = Inr (d', t')"
      by (auto split: sum.splits)
    from a obtain h where h: "map_of d c0 = Some h" and d1: "d1 = AList.update c0 (h @ [b]) d"
      by (auto simp: award_def split: option.splits)
    from mset_held_update [OF Cons.prems(2) h, of "h @ [b]"] d1
    have "mset (concat (map snd d1)) = mset (concat (map snd d)) + {#b#}" by simp
    moreover from Cons.IH [OF l] distinct_award [OF a Cons.prems(2)]
    have "mset (concat (map snd d')) =
       mset (concat (map snd d1)) + filter_mset (\<lambda>b. next_choice E b \<noteq> None) (mset bs)" by simp
    ultimately show ?thesis using Some by simp
  qed
qed simp

section \<open>What a round does to the tallies\<close>

lemma map_of_transfer_loop_eliminated:
  assumes "transfer_loop E bs (d, t) = Inr (d', t')" and "c |\<in>| E"
  shows "map_of d' c = map_of d c"
proof -
  have "filter (\<lambda>b. next_choice E b = Some c) bs = []"
    using assms(2) by (auto simp: filter_empty_conv dest: next_choice_not_eliminated)
  with map_of_transfer_loop [OF assms(1), of c] show ?thesis
    by (cases "map_of d c") auto
qed

lemma rcv_round_tallies:
  assumes "rcv_round r l s = Inr (l', s')"
  obtains last_place held d t where
    "resolve_tie_random r s = Inr last_place"
    "map_of (candidates s) last_place = Some held"
    "transfer_loop (finsert last_place (eliminated s)) held (candidates s, []) = Inr (d, t)"
    "candidates s' = AList.delete last_place d"
    "eliminated s' = finsert last_place (eliminated s)"
    "ballots s' = ballots s"
    "number_of_candidates s' = number_of_candidates s"
    "winner s' = winner s"
proof -
  from assms obtain last_place held where
    lp: "resolve_tie_random r s = Inr last_place"
    and held: "map_of (candidates s) last_place = Some held"
    by (auto simp: rcv_round_def Let_def split: sum.splits option.splits)
  show thesis
  proof (cases "held = []")
    case True
    with assms lp held have
      "candidates s' = AList.delete last_place (candidates s)"
      "eliminated s' = finsert last_place (eliminated s)"
      "ballots s' = ballots s" "number_of_candidates s' = number_of_candidates s"
      "winner s' = winner s"
      by (auto simp: rcv_round_def Let_def)
    moreover from True
    have "transfer_loop (finsert last_place (eliminated s)) held (candidates s, [])
            = Inr (candidates s, [])" by simp
    ultimately show thesis using that lp held by blast
  next
    case False
    with assms lp held obtain d t where
      "transfer_loop (finsert last_place (eliminated s)) held (candidates s, []) = Inr (d, t)"
      "candidates s' = AList.delete last_place d"
      "eliminated s' = finsert last_place (eliminated s)"
      "ballots s' = ballots s" "number_of_candidates s' = number_of_candidates s"
      "winner s' = winner s"
      by (auto simp: rcv_round_def Let_def split: sum.splits)
    then show thesis using that lp held by blast
  qed
qed

lemma held_not_exhausted:
  assumes "\<forall>p \<in> set d. \<forall>b \<in> set (snd p). next_choice E b = Some (fst p)"
  shows "filter_mset (\<lambda>b. next_choice E b = None) (mset (concat (map snd d))) = {#}"
  using assms by auto

lemma round_inv_step:
  assumes inv: "round_inv s" and round: "rcv_round r l s = Inr (l', s')"
  shows "round_inv s'"
proof -
  from round obtain lp held d t where
    lp: "resolve_tie_random r s = Inr lp"
    and held: "map_of (candidates s) lp = Some held"
    and tl: "transfer_loop (finsert lp (eliminated s)) held (candidates s, []) = Inr (d, t)"
    and c': "candidates s' = AList.delete lp d"
    and e': "eliminated s' = finsert lp (eliminated s)"
    and b': "ballots s' = ballots s"
    and n': "number_of_candidates s' = number_of_candidates s"
    by (rule rcv_round_tallies)
  let ?E = "eliminated s" and ?E' = "finsert lp (eliminated s)"
  from inv have dist: "distinct (map fst (candidates s))"
    and fresh: "\<forall>c \<in> set (map fst (candidates s)). c |\<notin>| ?E"
    and own: "\<forall>p \<in> set (candidates s). \<forall>b \<in> set (snd p). next_choice ?E b = Some (fst p)"
    and cons: "mset (ballots s) = mset (concat (map snd (candidates s))) +
       filter_mset (\<lambda>b. next_choice ?E b = None) (mset (ballots s))"
    and card: "length (candidates s) + fcard ?E = number_of_candidates s"
    by (auto simp: round_inv_def)
  from keys_transfer_loop [OF tl] have keys: "map fst d = map fst (candidates s)" by simp
  from held have lp_key: "lp \<in> set (map fst (candidates s))" by (rule map_of_Some_key)
  with fresh have lp_fresh: "lp |\<notin>| ?E" by blast
  from dist keys have dist_d: "distinct (map fst d)" by simp
  have held_d: "map_of d lp = Some held"
    using map_of_transfer_loop_eliminated [OF tl, of lp] held by simp
  \<comment> \<open>keys\<close>
  have 1: "distinct (map fst (candidates s'))"
    using dist_d c' by (simp add: distinct_delete)
  have keys': "set (map fst (candidates s')) = set (map fst (candidates s)) - {lp}"
    using c' keys by (simp add: delete_keys)
  have 2: "\<forall>c \<in> set (map fst (candidates s')). c |\<notin>| eliminated s'"
    using keys' fresh e' by auto
  \<comment> \<open>every held ballot is with its next choice\<close>
  have 3: "\<forall>p \<in> set (candidates s'). \<forall>b \<in> set (snd p). next_choice (eliminated s') b = Some (fst p)"
  proof (intro ballI)
    fix p b assume p: "p \<in> set (candidates s')" and b: "b \<in> set (snd p)"
    obtain c h' where pc: "p = (c, h')" by (cases p)
    from p pc 1 have m': "map_of (candidates s') c = Some h'" by simp
    from p pc keys' have ne: "c \<noteq> lp" by force
    with m' c' have "map_of d c = Some h'" by simp
    with map_of_transfer_loop [OF tl, of c] obtain h where
      h: "map_of (candidates s) c = Some h"
      and h': "h' = h @ filter (\<lambda>b. next_choice ?E' b = Some c) held"
      by (cases "map_of (candidates s) c") auto
    from h have "(c, h) \<in> set (candidates s)" by (rule map_of_SomeD)
    with own have "\<forall>b \<in> set h. next_choice ?E b = Some c" by force
    with ne have "\<forall>b \<in> set h. next_choice ?E' b = Some c" by (simp add: next_choice_finsert)
    with b pc h' e' show "next_choice (eliminated s') b = Some (fst p)" by auto
  qed
  \<comment> \<open>conservation\<close>
  let ?H = "mset (concat (map snd (candidates s)))"
  let ?B = "mset held"
  let ?X = "filter_mset (\<lambda>b. next_choice ?E b = None) (mset (ballots s))"
  from mset_transfer_loop [OF tl dist]
  have md: "mset (concat (map snd d)) = ?H + filter_mset (\<lambda>b. next_choice ?E' b \<noteq> None) ?B" .
  from mset_held_delete [OF dist_d held_d] c'
  have md': "mset (concat (map snd (candidates s'))) + ?B = mset (concat (map snd d))" by simp
  from mset_held_delete [OF dist held]
  have rest: "mset (concat (map snd (AList.delete lp (candidates s)))) + ?B = ?H" .
  let ?R = "mset (concat (map snd (AList.delete lp (candidates s))))"
  have "\<forall>p \<in> set (AList.delete lp (candidates s)).
          \<forall>b \<in> set (snd p). next_choice ?E' b = Some (fst p)"
  proof (intro ballI)
    fix p b assume p: "p \<in> set (AList.delete lp (candidates s))" and b: "b \<in> set (snd p)"
    from p have "p \<in> set (candidates s)" "fst p \<noteq> lp" by (auto simp: AList.delete_eq)
    with own b show "next_choice ?E' b = Some (fst p)" by (simp add: next_choice_finsert)
  qed
  then have R0: "filter_mset (\<lambda>b. next_choice ?E' b = None) ?R = {#}"
    by (rule held_not_exhausted)
  have X': "filter_mset (\<lambda>b. next_choice ?E' b = None) ?X = ?X"
    by (auto simp: filter_mset_eq_conv next_choice_None_finsert)
  have "filter_mset (\<lambda>b. next_choice ?E' b = None) (mset (ballots s)) =
        filter_mset (\<lambda>b. next_choice ?E' b = None) (?R + ?B + ?X)"
    using cons rest by simp
  also have "\<dots> = filter_mset (\<lambda>b. next_choice ?E' b = None) ?B + ?X"
    using R0 X' by simp
  finally have ex': "filter_mset (\<lambda>b. next_choice ?E' b = None) (mset (ballots s)) =
        filter_mset (\<lambda>b. next_choice ?E' b = None) ?B + ?X" .
  have split: "?B = filter_mset (\<lambda>b. next_choice ?E' b \<noteq> None) ?B +
                    filter_mset (\<lambda>b. next_choice ?E' b = None) ?B"
    by (induction held) auto
  have "mset (concat (map snd (candidates s'))) + ?B +
          filter_mset (\<lambda>b. next_choice ?E' b = None) (mset (ballots s)) =
        ?H + filter_mset (\<lambda>b. next_choice ?E' b \<noteq> None) ?B +
          (filter_mset (\<lambda>b. next_choice ?E' b = None) ?B + ?X)"
    using md md' ex' by simp
  also have "\<dots> = ?H + ?X + ?B" using split by (simp add: algebra_simps)
  also have "\<dots> = mset (ballots s) + ?B" using cons by simp
  finally have 4: "mset (ballots s') = mset (concat (map snd (candidates s'))) +
       filter_mset (\<lambda>b. next_choice (eliminated s') b = None) (mset (ballots s'))"
    using b' e' by simp
  \<comment> \<open>the count of the candidates\<close>
  have "Suc (length (candidates s')) = length (candidates s)"
    using length_delete_distinct [OF dist_d] lp_key keys c' by (metis length_map)
  moreover have "fcard (eliminated s') = Suc (fcard ?E)"
    using lp_fresh e' by (simp add: fcard_finsert_disjoint)
  ultimately have 5: "length (candidates s') + fcard (eliminated s') = number_of_candidates s'"
    using card n' by simp
  from 1 2 3 4 5 show ?thesis unfolding round_inv_def by blast
qed

section \<open>The start of the run\<close>

lemma next_choice_fempty:
  "next_choice {||} b = (case ranking b of [] \<Rightarrow> None | c # _ \<Rightarrow> Some c)"
  by (simp add: next_choice_def split: list.splits)

lemma assign_loop_ranking:
  "assign_loop bs d = Inr d' \<Longrightarrow> b \<in> set bs \<Longrightarrow> ranking b \<noteq> []"
  by (induction bs arbitrary: d) (auto split: list.splits sum.splits)

lemma assign_loop_transfer:
  "assign_loop bs d = Inr d' \<Longrightarrow> \<exists>t'. transfer_loop {||} bs (d, t) = Inr (d', t')"
  by (induction bs arbitrary: d t) (auto simp: next_choice_fempty split: list.splits sum.splits)

lemma candidates_Election:
  "distinct (map fst (candidates (Election bs cs)))"
  "set (map fst (candidates (Election bs cs))) = set cs"
  "\<forall>p \<in> set (candidates (Election bs cs)). snd p = []"
  using fold_update_distinct [of "[]" cs] fold_update_keys [of cs "[]"]
    fold_update_empty [of "[]" cs]
  by (simp_all add: Election_def)

lemma rcv_start_Election:
  assumes "rcv_start (Election bs cs) = Inr (l, s)"
  shows "l = 1" and "round_inv s" and "eliminated s = {||}" and "ballots s = bs"
    and "number_of_candidates s = length (candidates s)"
    and "set (map fst (candidates s)) = set cs"
    and "sankey_obj s = \<lparr> nodes = first_nodes (candidates s), links = [] \<rparr>"
    and "\<forall>b \<in> set bs. ranking b \<noteq> []"
proof -
  let ?d0 = "candidates (Election bs cs)"
  from assms obtain d where al: "assign_loop bs ?d0 = Inr d"
    and s: "s = (Election bs cs)\<lparr> number_of_candidates := length ?d0, candidates := d,
              sankey_obj := \<lparr> nodes = first_nodes d, links = [] \<rparr> \<rparr>"
    and l: "l = 1"
    by (auto simp: rcv_start_def assign_ballots_def Election_def split: sum.splits)
  from assign_loop_transfer [OF al, of "[]"] obtain t' where
    tl: "transfer_loop {||} bs (?d0, []) = Inr (d, t')" by blast
  from keys_transfer_loop [OF tl] have keys: "map fst d = map fst ?d0" by simp
  from s have fields: "candidates s = d" "eliminated s = {||}" "ballots s = bs"
    "number_of_candidates s = length ?d0"
    "sankey_obj s = \<lparr> nodes = first_nodes d, links = [] \<rparr>"
    by (simp_all add: Election_def)
  have dist: "distinct (map fst d)" using keys candidates_Election(1) [of bs cs] by simp
  have len: "length d = length ?d0" using keys by (metis length_map)
  have own: "\<forall>p \<in> set d. \<forall>b \<in> set (snd p). next_choice {||} b = Some (fst p)"
  proof (intro ballI)
    fix p b assume p: "p \<in> set d" and b: "b \<in> set (snd p)"
    obtain c h' where pc: "p = (c, h')" by (cases p)
    from p pc dist have "map_of d c = Some h'" by simp
    with map_of_transfer_loop [OF tl, of c] obtain h where
      h: "map_of ?d0 c = Some h"
      and h': "h' = h @ filter (\<lambda>b. next_choice {||} b = Some c) bs"
      by (cases "map_of ?d0 c") auto
    from h have "(c, h) \<in> set ?d0" by (rule map_of_SomeD)
    with candidates_Election(3) [of bs cs] have "h = []" by force
    with h' b pc show "next_choice {||} b = Some (fst p)" by auto
  qed
  have "concat (map snd ?d0) = []"
    using candidates_Election(3) [of bs cs] by auto
  with mset_transfer_loop [OF tl candidates_Election(1)]
  have "mset (concat (map snd d)) = filter_mset (\<lambda>b. next_choice {||} b \<noteq> None) (mset bs)"
    by simp
  then have cons: "mset bs = mset (concat (map snd d)) +
      filter_mset (\<lambda>b. next_choice {||} b = None) (mset bs)"
    using multiset_partition [of "mset bs" "\<lambda>b. next_choice {||} b \<noteq> None"] by simp
  show "l = 1" by (rule l)
  show "round_inv s"
    unfolding round_inv_def using fields dist own cons len by simp
  show "eliminated s = {||}" "ballots s = bs" by (rule fields)+
  show "number_of_candidates s = length (candidates s)" using fields len by simp
  show "set (map fst (candidates s)) = set cs"
    using fields keys candidates_Election(2) [of bs cs] by simp
  show "sankey_obj s = \<lparr> nodes = first_nodes (candidates s), links = [] \<rparr>"
    using fields by simp
  show "\<forall>b \<in> set bs. ranking b \<noteq> []"
    using assign_loop_ranking [OF al] by blast
qed

section \<open>The round boundaries of a run\<close>

lemma rcv_trace_hd: "\<exists>rest. rcv_trace rnd ls = ls # rest"
  by (cases ls) simp

lemma rcv_trace_step:
  "Suc i < length (rcv_trace rnd ls) \<Longrightarrow>
     loop_guard (snd (rcv_trace rnd ls ! i)) \<and>
     rcv_round (rnd i) (fst (rcv_trace rnd ls ! i)) (snd (rcv_trace rnd ls ! i))
       = Inr (rcv_trace rnd ls ! Suc i)"
proof (induction i arbitrary: rnd ls)
  case 0
  obtain l s where ls: "ls = (l, s)" by (cases ls)
  from 0 ls have g: "loop_guard s" by (auto split: if_splits)
  with 0 ls obtain ls' where r: "rcv_round (rnd 0) l s = Inr ls'"
    by (auto split: sum.splits)
  from rcv_trace_hd [of "\<lambda>i. rnd (Suc i)" ls'] obtain rest where
    "rcv_trace (\<lambda>i. rnd (Suc i)) ls' = ls' # rest" by blast
  with g r ls show ?case by simp
next
  case (Suc i)
  obtain l s where ls: "ls = (l, s)" by (cases ls)
  from Suc.prems ls have g: "loop_guard s" by (auto split: if_splits)
  with Suc.prems ls obtain ls' where r: "rcv_round (rnd 0) l s = Inr ls'"
    by (auto split: sum.splits)
  from g r ls have T: "rcv_trace rnd ls = ls # rcv_trace (\<lambda>i. rnd (Suc i)) ls'" by simp
  with Suc.prems have "Suc i < length (rcv_trace (\<lambda>i. rnd (Suc i)) ls')" by simp
  from Suc.IH [OF this] T show ?case by simp
qed

lemma rcv_trace_inv:
  "round_inv (snd ls) \<Longrightarrow> i < length (rcv_trace rnd ls) \<Longrightarrow> round_inv (snd (rcv_trace rnd ls ! i))"
proof (induction i)
  case 0
  from rcv_trace_hd [of rnd ls] 0 show ?case by auto
next
  case (Suc i)
  then have "round_inv (snd (rcv_trace rnd ls ! i))" by simp
  moreover from rcv_trace_step [OF Suc.prems(2)]
  have "rcv_round (rnd i) (fst (rcv_trace rnd ls ! i)) (snd (rcv_trace rnd ls ! i))
       = Inr (fst (rcv_trace rnd ls ! Suc i), snd (rcv_trace rnd ls ! Suc i))" by simp
  ultimately show ?case by (rule round_inv_step)
qed

lemma rcv_loop_last:
  "rcv_loop rnd ls = Inr ls' \<Longrightarrow> ls' = last (rcv_trace rnd ls) \<and> \<not> loop_guard (snd ls')"
proof (induction rnd ls rule: rcv_loop.induct)
  case (1 rnd l s)
  show ?case
  proof (cases "loop_guard s")
    case False
    with "1.prems" have "ls' = (l, s)" by simp
    with False show ?thesis by simp
  next
    case True
    with "1.prems" obtain ls1 where r: "rcv_round (rnd 0) l s = Inr ls1"
      and rest: "rcv_loop (\<lambda>i. rnd (Suc i)) ls1 = Inr ls'"
      by (auto split: sum.splits)
    from rcv_trace_hd [of "\<lambda>i. rnd (Suc i)" ls1]
    have ne: "rcv_trace (\<lambda>i. rnd (Suc i)) ls1 \<noteq> []" by auto
    from "1.IH" [OF True r rest]
    have a: "ls' = last (rcv_trace (\<lambda>i. rnd (Suc i)) ls1)" and b: "\<not> loop_guard (snd ls')"
      by blast+
    have "last (rcv_trace rnd (l, s)) = last (rcv_trace (\<lambda>i. rnd (Suc i)) ls1)"
      using True r ne by simp
    with a b show ?thesis by simp
  qed
qed


lemma next_choice_exhausted: "next_choice E b = None \<longleftrightarrow> exhausted E b"
  by (auto simp: next_choice_def exhausted_def find_None_iff list_all_iff)

lemma sum_list_map_cong:
  "(\<And>x. x \<in> set xs \<Longrightarrow> f x = g x) \<Longrightarrow> sum_list (map f xs) = sum_list (map g xs)"
  by (induction xs) auto

lemma sum_tally_held:
  "distinct (map fst d) \<Longrightarrow> (\<Sum>c \<leftarrow> map fst d. tally d c) = length (concat (map snd d))"
proof (induction d)
  case (Cons p d)
  obtain k h where p: "p = (k, h)" by (cases p)
  with Cons.prems have k: "k \<notin> set (map fst d)" by simp
  have "sum_list (map (tally (p # d)) (map fst d)) = sum_list (map (tally d) (map fst d))"
  proof (rule sum_list_map_cong)
    fix c assume "c \<in> set (map fst d)"
    with k have "c \<noteq> k" by blast
    with p show "tally (p # d) c = tally d c" by (simp add: tally_def)
  qed
  moreover have "tally (p # d) k = length h" using p by (simp add: tally_def)
  moreover from Cons have "sum_list (map (tally d) (map fst d)) = length (concat (map snd d))"
    by simp
  ultimately have "tally (p # d) k + sum_list (map (tally (p # d)) (map fst d))
      = length h + length (concat (map snd d))" by simp
  with p show ?case by simp
qed simp

lemma single_winner_trace_inv:
  assumes "i < length (single_winner_trace rnd (Election bs cs))"
  shows "round_inv (snd (single_winner_trace rnd (Election bs cs) ! i))"
    and "ballots (snd (single_winner_trace rnd (Election bs cs) ! i)) = bs"
    and "number_of_candidates (snd (single_winner_trace rnd (Election bs cs) ! i)) = card (set cs)"
    and "fcard (eliminated (snd (single_winner_trace rnd (Election bs cs) ! i))) = i"
proof -
  let ?T = "single_winner_trace rnd (Election bs cs)"
  from assms obtain l0 s0 where st: "rcv_start (Election bs cs) = Inr (l0, s0)"
    and T: "?T = rcv_trace rnd (l0, s0)"
    by (cases "rcv_start (Election bs cs)") (auto simp: single_winner_trace_def)
  note s0 = rcv_start_Election [OF st]
  from s0(2) have "distinct (map fst (candidates s0))" by (simp add: round_inv_def)
  then have "card (set (map fst (candidates s0))) = length (map fst (candidates s0))"
    by (rule distinct_card)
  with s0(5,6) have n0: "number_of_candidates s0 = card (set cs)" by simp
  have inv: "round_inv (snd (?T ! j))" if "j < length ?T" for j
    using rcv_trace_inv [of "(l0, s0)" j rnd] s0(2) that T by simp
  have "ballots (snd (?T ! j)) = bs \<and> number_of_candidates (snd (?T ! j)) = card (set cs)
      \<and> fcard (eliminated (snd (?T ! j))) = j" if "j < length ?T" for j
    using that
  proof (induction j)
    case 0
    from rcv_trace_hd [of rnd "(l0, s0)"] T s0(3,4) n0 show ?case by auto
  next
    case (Suc j)
    from Suc.prems T rcv_trace_step [of j rnd "(l0, s0)"]
    have "rcv_round (rnd j) (fst (?T ! j)) (snd (?T ! j)) = Inr (fst (?T ! Suc j), snd (?T ! Suc j))"
      by simp
    then obtain lp held where
      held: "map_of (candidates (snd (?T ! j))) lp = Some held"
      and e: "eliminated (snd (?T ! Suc j)) = finsert lp (eliminated (snd (?T ! j)))"
      and b: "ballots (snd (?T ! Suc j)) = ballots (snd (?T ! j))"
      and n: "number_of_candidates (snd (?T ! Suc j)) = number_of_candidates (snd (?T ! j))"
      by (rule rcv_round_tallies)
    from inv [of j] Suc.prems
    have "\<forall>c \<in> set (map fst (candidates (snd (?T ! j)))). c |\<notin>| eliminated (snd (?T ! j))"
      by (simp add: round_inv_def)
    with map_of_Some_key [OF held] have "lp |\<notin>| eliminated (snd (?T ! j))" by blast
    then have "fcard (finsert lp (eliminated (snd (?T ! j)))) = Suc (fcard (eliminated (snd (?T ! j))))"
      by (rule fcard_finsert_disjoint)
    with e b n Suc show ?case by simp
  qed
  with assms inv show "round_inv (snd (?T ! i))" "ballots (snd (?T ! i)) = bs"
    "number_of_candidates (snd (?T ! i)) = card (set cs)" "fcard (eliminated (snd (?T ! i))) = i"
    by simp_all
qed

lemma single_winner_trace_step:
  assumes "Suc i < length (single_winner_trace rnd (Election bs cs))"
  shows "loop_guard (snd (single_winner_trace rnd (Election bs cs) ! i))"
    and "rcv_round (rnd i) (fst (single_winner_trace rnd (Election bs cs) ! i))
           (snd (single_winner_trace rnd (Election bs cs) ! i))
         = Inr (single_winner_trace rnd (Election bs cs) ! Suc i)"
proof -
  from assms obtain ls where T: "single_winner_trace rnd (Election bs cs) = rcv_trace rnd ls"
    by (cases "rcv_start (Election bs cs)") (auto simp: single_winner_trace_def)
  from assms rcv_trace_step [of i rnd ls] T
  show "loop_guard (snd (single_winner_trace rnd (Election bs cs) ! i))"
    and "rcv_round (rnd i) (fst (single_winner_trace rnd (Election bs cs) ! i))
           (snd (single_winner_trace rnd (Election bs cs) ! i))
         = Inr (single_winner_trace rnd (Election bs cs) ! Suc i)"
    by simp_all
qed

lemma single_winner_rcv_last:
  assumes "single_winner_rcv rnd e = Inr s"
  shows "single_winner_trace rnd e \<noteq> []"
    and "\<exists>w rest. map fst (candidates (snd (last (single_winner_trace rnd e)))) = w # rest \<and>
           s = (snd (last (single_winner_trace rnd e)))\<lparr> winner := Some w \<rparr>"
    and "\<not> loop_guard (snd (last (single_winner_trace rnd e)))"
proof -
  from assms obtain ls ls' where st: "rcv_start e = Inr ls" and lp: "rcv_loop rnd ls = Inr ls'"
    and w: "(case map fst (candidates (snd ls')) of
                  [] \<Rightarrow> Inl IndexError
                | w # _ \<Rightarrow> Inr ((snd ls')\<lparr> winner := Some w \<rparr>)) = Inr s"
    by (auto simp: single_winner_rcv_def split: sum.splits)
  from st have T: "single_winner_trace rnd e = rcv_trace rnd ls"
    by (simp add: single_winner_trace_def)
  from rcv_trace_hd [of rnd ls] T show "single_winner_trace rnd e \<noteq> []" by auto
  from rcv_loop_last [OF lp, THEN conjunct1] T
  have l: "ls' = last (single_winner_trace rnd e)" by simp
  from rcv_loop_last [OF lp, THEN conjunct2] have g: "\<not> loop_guard (snd ls')" .
  from g l show "\<not> loop_guard (snd (last (single_winner_trace rnd e)))" by simp
  from w l show "\<exists>w rest. map fst (candidates (snd (last (single_winner_trace rnd e)))) = w # rest \<and>
           s = (snd (last (single_winner_trace rnd e)))\<lparr> winner := Some w \<rparr>"
    by (cases "map fst (candidates (snd ls'))") auto
qed

section \<open>The demonstration election\<close>

lemma demo_len: "length (single_winner_trace (\<lambda>_. 0) (Election demo_ballots [''A'', ''B''])) = 2"
  by code_simp

section \<open>Transfer of the ballots of an eliminated candidate\<close>

text \<open>
  Claim C1. In a round of the single-winner run (from the boundary state \<open>i\<close> to the next
  one) whose eliminated candidate \<open>last_place\<close> holds the ballots \<open>B\<close>, take a ballot \<open>b\<close> of
  \<open>B\<close>. After the round, either the scan of its ranking finds a first candidate \<open>c\<close> that is
  not in the eliminated set: then \<open>c\<close> is a surviving candidate, its list is its old list
  followed by the ballots of \<open>B\<close> whose scan finds \<open>c\<close>, and an active candidate holds \<open>b\<close>
  exactly when it is \<open>c\<close>; or every candidate of the ranking is eliminated: then \<open>b\<close> is
  exhausted and no active candidate holds it.
\<close>


theorem transfer_correct:
  assumes "Suc i < length (single_winner_trace rnd (Election bs cs))"
    and "single_winner_trace rnd (Election bs cs) ! i = (l, s)"
    and "single_winner_trace rnd (Election bs cs) ! Suc i = (l', s')"
    and "resolve_tie_random (rnd i) s = Inr last_place"
    and "map_of (candidates s) last_place = Some B"
    and "b \<in> set B"
  shows "eliminated s' = finsert last_place (eliminated s) \<and>
    (case next_choice (eliminated s') b of
       Some c \<Rightarrow>
         c |\<notin>| eliminated s' \<and>
         (\<exists>h0. map_of (candidates s) c = Some h0 \<and>
               map_of (candidates s') c =
                 Some (h0 @ filter (\<lambda>b'. next_choice (eliminated s') b' = Some c) B)) \<and>
         (\<forall>c' h. map_of (candidates s') c' = Some h \<longrightarrow> (b \<in> set h \<longleftrightarrow> c' = c))
     | None \<Rightarrow>
         exhausted (eliminated s') b \<and>
         (\<forall>c' h. map_of (candidates s') c' = Some h \<longrightarrow> b \<notin> set h))"
proof -
  from single_winner_trace_step(2) [OF assms(1)] assms(2,3)
  have round: "rcv_round (rnd i) l s = Inr (l', s')" by simp
  then obtain lp held d t where
    "resolve_tie_random (rnd i) s = Inr lp"
    "map_of (candidates s) lp = Some held"
    and tl0: "transfer_loop (finsert lp (eliminated s)) held (candidates s, []) = Inr (d, t)"
    and c0: "candidates s' = AList.delete lp d"
    and e0: "eliminated s' = finsert lp (eliminated s)"
    by (rule rcv_round_tallies)
  with assms(4,5) have lp: "lp = last_place" and held: "held = B" by simp_all
  note tl = tl0 [unfolded lp held] and c' = c0 [unfolded lp] and e' = e0 [unfolded lp]
  from single_winner_trace_inv(1) [OF assms(1)] assms(3) have inv': "round_inv s'" by simp
  then have own: "\<forall>p \<in> set (candidates s'). \<forall>b \<in> set (snd p). next_choice (eliminated s') b = Some (fst p)"
    by (simp add: round_inv_def)
  have holder: "next_choice (eliminated s') b = Some c'"
    if "map_of (candidates s') c' = Some h" "b \<in> set h" for c' h
    using own map_of_SomeD [OF that(1)] that(2) by force
  show ?thesis
  proof (cases "next_choice (eliminated s') b")
    case None
    with holder have "\<forall>c' h. map_of (candidates s') c' = Some h \<longrightarrow> b \<notin> set h" by force
    moreover from None have "exhausted (eliminated s') b" by (simp add: next_choice_exhausted)
    ultimately show ?thesis using None e' by simp
  next
    case (Some c)
    then have fresh: "c |\<notin>| eliminated s'" by (simp add: next_choice_not_eliminated)
    with e' have ne: "c \<noteq> last_place" by auto
    from Some e' have nc: "next_choice (finsert last_place (eliminated s)) b = Some c" by simp
    from transfer_loop_targets [OF tl assms(6) nc] obtain h0 where
      h0: "map_of (candidates s) c = Some h0"
      by (cases "map_of (candidates s) c") (auto simp: map_of_eq_None_iff)
    from map_of_transfer_loop [OF tl, of c] h0 ne c' e'
    have m': "map_of (candidates s') c =
        Some (h0 @ filter (\<lambda>b'. next_choice (eliminated s') b' = Some c) B)" by simp
    have "b \<in> set (h0 @ filter (\<lambda>b'. next_choice (eliminated s') b' = Some c) B)"
      using Some assms(6) by simp
    with m' holder Some
    have "\<forall>c' h. map_of (candidates s') c' = Some h \<longrightarrow> (b \<in> set h \<longleftrightarrow> c' = c)"
      by (metis option.inject)
    with Some fresh h0 m' e' show ?thesis by simp
  qed
qed

theorem transfer_correct_witness:
  "Suc 0 < length demo_trace \<and>
   resolve_tie_random 0 (snd (demo_trace ! 0)) = Inr ''B'' \<and>
   map_of (candidates (snd (demo_trace ! 0))) ''B''
     = Some [\<lparr> weight = 1, ranking = [''B'', ''A''] \<rparr>, \<lparr> weight = 1, ranking = [''B''] \<rparr>] \<and>
   eliminated (snd (demo_trace ! Suc 0)) = finsert ''B'' (eliminated (snd (demo_trace ! 0))) \<and>
   next_choice (eliminated (snd (demo_trace ! Suc 0))) \<lparr> weight = 1, ranking = [''B'', ''A''] \<rparr>
     = Some ''A'' \<and>
   ''A'' |\<notin>| eliminated (snd (demo_trace ! Suc 0)) \<and>
   (\<exists>h0. map_of (candidates (snd (demo_trace ! 0))) ''A'' = Some h0 \<and>
         map_of (candidates (snd (demo_trace ! Suc 0))) ''A'' =
           Some (h0 @ filter (\<lambda>b'. next_choice (eliminated (snd (demo_trace ! Suc 0))) b' = Some ''A'')
                        [\<lparr> weight = 1, ranking = [''B'', ''A''] \<rparr>,
                         \<lparr> weight = 1, ranking = [''B''] \<rparr>])) \<and>
   \<not> (\<exists>c' h. map_of (candidates (snd (demo_trace ! Suc 0))) c' = Some h \<and>
            \<lparr> weight = 1, ranking = [''B'', ''A''] \<rparr> \<in> set h \<and> c' \<noteq> ''A'') \<and>
   next_choice (eliminated (snd (demo_trace ! Suc 0))) \<lparr> weight = 1, ranking = [''B''] \<rparr> = None \<and>
   exhausted (eliminated (snd (demo_trace ! Suc 0))) \<lparr> weight = 1, ranking = [''B''] \<rparr> \<and>
   \<not> (\<exists>c' h. map_of (candidates (snd (demo_trace ! Suc 0))) c' = Some h \<and>
            \<lparr> weight = 1, ranking = [''B''] \<rparr> \<in> set h)"
proof -
  let ?T = "single_winner_trace (\<lambda>_. 0) (Election demo_ballots [''A'', ''B''])"
  let ?B = "[\<lparr> weight = 1, ranking = [''B'', ''A''] \<rparr>, \<lparr> weight = (1::int), ranking = [''B''] \<rparr>]"
  have len: "Suc 0 < length ?T" by (simp add: demo_len)
  have s: "?T ! 0 = (fst (?T ! 0), snd (?T ! 0))"
    and s': "?T ! Suc 0 = (fst (?T ! Suc 0), snd (?T ! Suc 0))"
    by simp_all
  have lp: "resolve_tie_random 0 (snd (?T ! 0)) = Inr ''B''" by code_simp
  have held: "map_of (candidates (snd (?T ! 0))) ''B'' = Some ?B" by code_simp
  have n1: "next_choice (eliminated (snd (?T ! Suc 0))) \<lparr> weight = 1, ranking = [''B'', ''A''] \<rparr> = Some ''A''"
    by code_simp
  have n2: "next_choice (eliminated (snd (?T ! Suc 0))) \<lparr> weight = 1, ranking = [''B''] \<rparr> = None"
    by code_simp
  have b1: "\<lparr> weight = 1, ranking = [''B'', ''A''] \<rparr> \<in> set ?B"
    and b2: "\<lparr> weight = 1, ranking = [''B''] \<rparr> \<in> set ?B" by simp_all
  note t1 = transfer_correct [of 0 "\<lambda>_. 0", OF len s s' lp held b1, unfolded n1 option.case]
  note t2 = transfer_correct [of 0 "\<lambda>_. 0", OF len s s' lp held b2, unfolded n2 option.case]
  from len lp held n1 n2 t1 t2 show ?thesis unfolding demo_trace_def by blast
qed

section \<open>Conservation of the ballots\<close>

text \<open>
  Claim C2. At every round boundary of the single-winner run (after the assignment and
  after each completed round), the numbers of ballots assigned to the active candidates,
  summed, plus the number of exhausted ballots is the number of ballots of the election.
\<close>


theorem ballots_conserved:
  assumes "(l, s) \<in> set (single_winner_trace rnd (Election bs cs))"
  shows "(\<Sum>c \<leftarrow> map fst (candidates s). tally (candidates s) c)
           + length (filter (exhausted (eliminated s)) (ballots s)) = length (ballots s)
         \<and> ballots s = bs"
proof -
  from assms obtain i where i: "i < length (single_winner_trace rnd (Election bs cs))"
    and s: "single_winner_trace rnd (Election bs cs) ! i = (l, s)"
    by (auto simp: in_set_conv_nth)
  from single_winner_trace_inv [OF i] s have inv: "round_inv s" and b: "ballots s = bs" by simp_all
  from inv have "mset (ballots s) =
      mset (concat (map snd (candidates s))) +
      filter_mset (\<lambda>b. next_choice (eliminated s) b = None) (mset (ballots s))"
    by (simp add: round_inv_def)
  then have "size (mset (ballots s)) =
      size (mset (concat (map snd (candidates s))) +
      filter_mset (\<lambda>b. next_choice (eliminated s) b = None) (mset (ballots s)))"
    by (rule arg_cong)
  then have "length (ballots s) = length (concat (map snd (candidates s))) +
      length (filter (\<lambda>b. next_choice (eliminated s) b = None) (ballots s))"
    by (simp flip: mset_filter)
  moreover have "filter (exhausted (eliminated s)) (ballots s)
      = filter (\<lambda>b. next_choice (eliminated s) b = None) (ballots s)"
    by (simp add: next_choice_exhausted)
  moreover from inv have "distinct (map fst (candidates s))" by (simp add: round_inv_def)
  then have "(\<Sum>c \<leftarrow> map fst (candidates s). tally (candidates s) c)
      = length (concat (map snd (candidates s)))"
    by (rule sum_tally_held)
  ultimately show ?thesis using b by simp
qed

theorem ballots_conserved_witness:
  "last demo_trace \<in> set demo_trace \<and>
   (\<Sum>c \<leftarrow> map fst (candidates (snd (last demo_trace))).
       tally (candidates (snd (last demo_trace))) c) = 3 \<and>
   length (filter (exhausted (eliminated (snd (last demo_trace))))
                  (ballots (snd (last demo_trace)))) = 1 \<and>
   length (ballots (snd (last demo_trace))) = 4 \<and>
   ballots (snd (last demo_trace)) = demo_ballots"
proof -
  let ?T = "single_winner_trace (\<lambda>_. 0) (Election demo_ballots [''A'', ''B''])"
  have m: "(fst (last ?T), snd (last ?T)) \<in> set ?T" by code_simp
  have v: "(\<Sum>c \<leftarrow> map fst (candidates (snd (last ?T))). tally (candidates (snd (last ?T))) c) = 3"
    "length (filter (exhausted (eliminated (snd (last ?T)))) (ballots (snd (last ?T)))) = 1"
    by code_simp+
  have n: "length demo_ballots = 4" by (simp add: demo_ballots_def)
  from ballots_conserved [OF m] v n
  have "length (ballots (snd (last ?T))) = 4" "ballots (snd (last ?T)) = demo_ballots"
    by simp_all
  with m v show ?thesis unfolding demo_trace_def by simp
qed

section \<open>The shuffle utility on short sequences\<close>

lemma riffle_singleton: "length item = 1 \<Longrightarrow> riffle shuffle u item = Inr item"
  by (simp add: riffle_def riffle_shuffles_def)

text \<open>
  Claim C8. The shuffle utility is to perform \<open>ceil(1.5 * log2 n + U)\<close> shuffles and, for
  every sequence of length at most 1, the empty one included, no shuffle, returning
  normally. On the empty sequence the code does not return: \<open>math.log2(0)\<close> raises a
  \<open>ValueError\<close> before any shuffle, whatever the random source.
\<close>

theorem riffle_empty_raises: "riffle shuffle u ([] :: 'a list) = Inl ValueError"
  by (simp add: riffle_def riffle_shuffles_def)

section \<open>The status text\<close>

lemma repr_status_exhausted:
  "exhausted_ballots (repr_status s) =
     (\<Sum>c \<leftarrow> map fst (candidates s). int (tally (candidates s) c))"
  by (simp add: repr_status_def Let_def)

text \<open>
  Claim C6. The status text is to show, as the exhausted-ballot count, the number of
  ballots minus the number of ballots assigned to active candidates. In an election of
  one candidate and one ballot that ranks this candidate, the run leaves the ballot with
  the winner, no ballot is exhausted, and the text shows \<open>Exhausted ballots: 1\<close>: the
  number shown is the number of assigned ballots.
\<close>

theorem repr_status_shows_assigned:
  "(case single_winner_rcv (\<lambda>_. 0) (Election [\<lparr> weight = 1, ranking = [''A''] \<rparr>] [''A'']) of
      Inl e \<Rightarrow> False
    | Inr s \<Rightarrow>
        candidates s = [(''A'', [\<lparr> weight = 1, ranking = [''A''] \<rparr>])] \<and>
        num_ballots (repr_status s) = 1 \<and>
        exhausted_ballots (repr_status s) = 1)"
  by code_simp


section \<open>What a round does to the flow graph\<close>

lemma link_loop_appends:
  "link_loop f cs acc = Inr ls \<Longrightarrow> \<exists>new. ls = acc @ new \<and> length new = length cs"
proof (induction cs arbitrary: acc)
  case (Cons c cs)
  then obtain l where "f c = Inr l" and "link_loop f cs (acc @ [l]) = Inr ls"
    by (auto split: sum.splits)
  from Cons.IH [OF this(2)] obtain new where "ls = (acc @ [l]) @ new" "length new = length cs"
    by blast
  then have "ls = acc @ (l # new) \<and> length (l # new) = length (c # cs)" by simp
  then show ?case by blast
qed simp

lemma rcv_round_empty:
  assumes "rcv_round r l s = Inr (l', s')"
    and "resolve_tie_random r s = Inr lp"
    and "map_of (candidates s) lp = Some []"
  shows "l' = l"
    and "s' = s\<lparr> eliminated := finsert lp (eliminated s),
                 candidates := AList.delete lp (candidates s) \<rparr>"
  using assms by (simp_all add: rcv_round_def)

lemma rcv_round_sankey:
  assumes "rcv_round r l s = Inr (l', s')"
    and "resolve_tie_random r s = Inr lp"
    and "map_of (candidates s) lp = Some held"
    and "held \<noteq> []"
  shows "l' = Suc l"
    and "nodes (sankey_obj s') = nodes (sankey_obj s) @
           map (\<lambda>c. \<lparr> name = c, layer = Suc l, node_value = None \<rparr>)
               (filter (\<lambda>c. c |\<notin>| eliminated s') (map fst (candidates s')))"
    and "\<exists>new. links (sankey_obj s') = links (sankey_obj s) @ new \<and>
           length (filter (\<lambda>c. c \<noteq> lp) (map fst (candidates s'))) \<le> length new"
proof -
  let ?E = "finsert lp (eliminated s)"
  let ?sv = "map (\<lambda>(c, bs). (c, length bs)) (candidates s)"
  from assms obtain d t where tl: "transfer_loop ?E held (candidates s, []) = Inr (d, t)"
    by (auto simp: rcv_round_def Let_def split: sum.splits)
  let ?d' = "AList.delete lp d"
  let ?ns = "nodes (sankey_obj s) @
      map (\<lambda>c. \<lparr> name = c, layer = l + 1, node_value = None \<rparr>)
          (filter (\<lambda>c. c |\<notin>| ?E) (map fst ?d'))"
  from assms tl obtain self_links where
    sl: "link_loop (self_link ?ns (l + 1) ?sv) (filter (\<lambda>c. c \<noteq> lp) (map fst ?d')) [] = Inr self_links"
    by (auto simp: rcv_round_def Let_def split: sum.splits)
  from assms tl sl obtain all_links where
    al: "link_loop (real_link ?ns (l + 1) ?sv lp t) (map fst t) self_links = Inr all_links"
    by (auto simp: rcv_round_def Let_def split: sum.splits)
  from assms tl sl al have res: "l' = l + 1"
    "s' = s\<lparr> eliminated := ?E, candidates := ?d',
              sankey_obj := \<lparr> nodes = ?ns, links = links (sankey_obj s) @ all_links \<rparr> \<rparr>"
    by (auto simp: rcv_round_def Let_def)
  from res show "l' = Suc l" by simp
  from res show "nodes (sankey_obj s') = nodes (sankey_obj s) @
           map (\<lambda>c. \<lparr> name = c, layer = Suc l, node_value = None \<rparr>)
               (filter (\<lambda>c. c |\<notin>| eliminated s') (map fst (candidates s')))"
    by simp
  from link_loop_appends [OF sl] have l1: "length self_links = length (filter (\<lambda>c. c \<noteq> lp) (map fst ?d'))"
    by auto
  from link_loop_appends [OF al] obtain new where "all_links = self_links @ new" by blast
  with l1 have "length (filter (\<lambda>c. c \<noteq> lp) (map fst ?d')) \<le> length all_links" by simp
  with res show "\<exists>new. links (sankey_obj s') = links (sankey_obj s) @ new \<and>
           length (filter (\<lambda>c. c \<noteq> lp) (map fst (candidates s'))) \<le> length new"
    by simp
qed

lemma layered_first_nodes: "layered (Suc 0) (first_nodes d)"
  by (simp add: layered_def first_nodes_def list_all_iff)

lemma layered_step:
  assumes "layered l (nodes (sankey_obj s))" and "rcv_round r l s = Inr (l', s')"
  shows "layered l' (nodes (sankey_obj s'))"
proof -
  from assms(2) obtain lp held where lp: "resolve_tie_random r s = Inr lp"
    and held: "map_of (candidates s) lp = Some held"
    by (rule rcv_round_tallies)
  show ?thesis
  proof (cases "held = []")
    case True
    with rcv_round_empty [OF assms(2) lp] held assms(1) show ?thesis by simp
  next
    case False
    from rcv_round_sankey(1,2) [OF assms(2) lp held False] assms(1)
    show ?thesis by (auto simp: layered_def list_all_iff)
  qed
qed

lemma rcv_trace_layered:
  "layered (fst ls) (nodes (sankey_obj (snd ls))) \<Longrightarrow> i < length (rcv_trace rnd ls) \<Longrightarrow>
     layered (fst (rcv_trace rnd ls ! i)) (nodes (sankey_obj (snd (rcv_trace rnd ls ! i))))"
proof (induction i)
  case 0
  from rcv_trace_hd [of rnd ls] 0 show ?case by auto
next
  case (Suc i)
  then have "layered (fst (rcv_trace rnd ls ! i)) (nodes (sankey_obj (snd (rcv_trace rnd ls ! i))))"
    by simp
  moreover from rcv_trace_step [OF Suc.prems(2)]
  have "rcv_round (rnd i) (fst (rcv_trace rnd ls ! i)) (snd (rcv_trace rnd ls ! i))
       = Inr (fst (rcv_trace rnd ls ! Suc i), snd (rcv_trace rnd ls ! Suc i))" by simp
  ultimately show ?case by (rule layered_step)
qed

lemma single_winner_trace_layered:
  assumes "i < length (single_winner_trace rnd (Election bs cs))"
  shows "layered (fst (single_winner_trace rnd (Election bs cs) ! i))
           (nodes (sankey_obj (snd (single_winner_trace rnd (Election bs cs) ! i))))"
proof -
  from assms obtain l0 s0 where st: "rcv_start (Election bs cs) = Inr (l0, s0)"
    and T: "single_winner_trace rnd (Election bs cs) = rcv_trace rnd (l0, s0)"
    by (cases "rcv_start (Election bs cs)") (auto simp: single_winner_trace_def)
  from rcv_start_Election(1,7) [OF st] have "layered (fst (l0, s0)) (nodes (sankey_obj (snd (l0, s0))))"
    by (simp add: layered_first_nodes)
  from rcv_trace_layered [OF this, of i rnd] assms T show ?thesis by simp
qed


section \<open>Values of the nodes of the flow graph\<close>

lemma demo_nodes:
  "map_sum id (\<lambda>s. set (nodes (sankey_obj s)))
     (single_winner_rcv (\<lambda>_. 0) (Election demo_ballots [''A'', ''B''])) =
   Inr {\<lparr> name = ''A'', layer = 1, node_value = Some 2 \<rparr>,
        \<lparr> name = ''B'', layer = 1, node_value = Some 2 \<rparr>,
        \<lparr> name = ''A'', layer = 2, node_value = None \<rparr>}"
  by code_simp

text \<open>
  Claim C7, as stated: every node of layer 1 or 2 carries a starting vote value. In the
  demonstration election the round appends the node of the survivor at layer 2 without a
  value.
\<close>

theorem layer_two_node_without_value:
  "map_sum id (\<lambda>s. nodes (sankey_obj s))
     (single_winner_rcv (\<lambda>_. 0) (Election demo_ballots [''A'', ''B''])) =
   Inr [\<lparr> name = ''A'', layer = 1, node_value = Some 2 \<rparr>,
        \<lparr> name = ''B'', layer = 1, node_value = Some 2 \<rparr>,
        \<lparr> name = ''A'', layer = 2, node_value = None \<rparr>]"
  by code_simp

text \<open>
  Claim C7, amended. Every node of the flow graph of a completed run carries a candidate name
  and a round layer, which is at least 1, and it carries a starting vote value exactly when
  its layer is 1: the nodes that the rounds append, at the layers from 2 on, have no value.
\<close>

theorem value_only_in_first_layer:
  assumes "single_winner_rcv rnd (Election bs cs) = Inr s"
    and "n \<in> set (nodes (sankey_obj s))"
  shows "1 \<le> layer n \<and> (node_value n \<noteq> None \<longleftrightarrow> layer n = 1)"
proof -
  let ?T = "single_winner_trace rnd (Election bs cs)"
  from single_winner_rcv_last(1,2) [OF assms(1)] have ne: "?T \<noteq> []"
    and s: "sankey_obj s = sankey_obj (snd (last ?T))" by auto
  from ne have "last ?T = ?T ! (length ?T - 1)" by (rule last_conv_nth)
  moreover from ne have "length ?T - 1 < length ?T" by simp
  from single_winner_trace_layered [OF this]
  have "layered (fst (?T ! (length ?T - 1))) (nodes (sankey_obj (snd (?T ! (length ?T - 1)))))" .
  ultimately have "layered (fst (last ?T)) (nodes (sankey_obj s))" using s by simp
  with assms(2) show ?thesis by (auto simp: layered_def list_all_iff)
qed

theorem value_only_in_first_layer_witness:
  "(\<exists>s. single_winner_rcv (\<lambda>_. 0) (Election demo_ballots [''A'', ''B'']) = Inr s \<and>
        \<lparr> name = ''A'', layer = 2, node_value = None \<rparr> \<in> set (nodes (sankey_obj s))) \<and>
   1 \<le> layer \<lparr> name = ''A'', layer = 2, node_value = None \<rparr> \<and>
   (node_value \<lparr> name = ''A'', layer = 2, node_value = None \<rparr> \<noteq> None \<longleftrightarrow>
      layer \<lparr> name = ''A'', layer = 2, node_value = None \<rparr> = 1)"
proof -
  obtain s where s: "single_winner_rcv (\<lambda>_. 0) (Election demo_ballots [''A'', ''B'']) = Inr s"
    and n: "\<lparr> name = ''A'', layer = 2, node_value = None \<rparr> \<in> set (nodes (sankey_obj s))"
    using demo_nodes
    by (cases "single_winner_rcv (\<lambda>_. 0) (Election demo_ballots [''A'', ''B''])") auto
  from value_only_in_first_layer [OF s n] s n show ?thesis by blast
qed

section \<open>Rounds without and with transfers\<close>

lemma demo_three_len:
  "length (single_winner_trace (\<lambda>_. 0) (Election demo_ballots [''A'', ''B'', ''C''])) = 3"
  by code_simp

text \<open>
  Claim C9. In a round of the single-winner run whose eliminated candidate holds no ballot,
  the new object is the old one with the candidate added to the eliminated set and removed
  from the active mapping: the lists of the other candidates and the flow graph, nodes and
  links, are unchanged, and so is the layer. In a round whose eliminated candidate holds a
  ballot, the flow graph grows by at least one node and at least one link.
\<close>

theorem round_without_transfers:
  assumes "Suc i < length (single_winner_trace rnd (Election bs cs))"
    and "single_winner_trace rnd (Election bs cs) ! i = (l, s)"
    and "single_winner_trace rnd (Election bs cs) ! Suc i = (l', s')"
    and "resolve_tie_random (rnd i) s = Inr last_place"
    and "map_of (candidates s) last_place = Some held"
  shows "(held = [] \<longrightarrow>
            l' = l \<and>
            s' = s\<lparr> eliminated := finsert last_place (eliminated s),
                     candidates := AList.delete last_place (candidates s) \<rparr> \<and>
            sankey_obj s' = sankey_obj s \<and>
            last_place \<notin> set (map fst (candidates s')) \<and>
            (\<forall>c. c \<noteq> last_place \<longrightarrow> map_of (candidates s') c = map_of (candidates s) c)) \<and>
         (held \<noteq> [] \<longrightarrow>
            (\<exists>new_nodes new_links.
               new_nodes \<noteq> [] \<and> new_links \<noteq> [] \<and>
               nodes (sankey_obj s') = nodes (sankey_obj s) @ new_nodes \<and>
               links (sankey_obj s') = links (sankey_obj s) @ new_links))"
proof -
  let ?T = "single_winner_trace rnd (Election bs cs)"
  from single_winner_trace_step [OF assms(1)] assms(2,3)
  have guard: "loop_guard s" and round: "rcv_round (rnd i) l s = Inr (l', s')" by simp_all
  have empty: "l' = l \<and>
            s' = s\<lparr> eliminated := finsert last_place (eliminated s),
                     candidates := AList.delete last_place (candidates s) \<rparr> \<and>
            sankey_obj s' = sankey_obj s \<and>
            last_place \<notin> set (map fst (candidates s')) \<and>
            (\<forall>c. c \<noteq> last_place \<longrightarrow> map_of (candidates s') c = map_of (candidates s) c)"
    if "held = []"
  proof -
    from that assms(5) have "map_of (candidates s) last_place = Some []" by simp
    note e = rcv_round_empty [OF round assms(4) this]
    from e(2) have c': "candidates s' = AList.delete last_place (candidates s)"
      and g: "sankey_obj s' = sankey_obj s" by simp_all
    from c' have "last_place \<notin> set (map fst (candidates s'))"
      using delete_notin_dom [of last_place "candidates s"] by simp
    moreover from c' have "\<forall>c. c \<noteq> last_place \<longrightarrow> map_of (candidates s') c = map_of (candidates s) c"
      by simp
    ultimately show ?thesis using e g by blast
  qed
  have grows: "\<exists>new_nodes new_links.
               new_nodes \<noteq> [] \<and> new_links \<noteq> [] \<and>
               nodes (sankey_obj s') = nodes (sankey_obj s) @ new_nodes \<and>
               links (sankey_obj s') = links (sankey_obj s) @ new_links"
    if "held \<noteq> []"
  proof -
    note g = rcv_round_sankey [OF round assms(4,5) that]
    from single_winner_trace_inv [OF assms(1)] assms(3)
    have inv': "round_inv s'" and n': "number_of_candidates s' = card (set cs)"
      and f': "fcard (eliminated s') = Suc i" by simp_all
    from assms(1) have "i < length ?T" by simp
    from single_winner_trace_inv(3,4) [OF this] assms(2)
    have "number_of_candidates s = card (set cs)" "fcard (eliminated s) = i" by simp_all
    with guard have "Suc i < card (set cs)" by (simp add: loop_guard_def)
    moreover from inv' have "length (candidates s') + fcard (eliminated s') = number_of_candidates s'"
      by (simp add: round_inv_def)
    ultimately have ne: "candidates s' \<noteq> []" using n' f' by auto
    from inv' have fresh: "\<forall>c \<in> set (map fst (candidates s')). c |\<notin>| eliminated s'"
      by (simp add: round_inv_def)
    then have "filter (\<lambda>c. c |\<notin>| eliminated s') (map fst (candidates s')) = map fst (candidates s')"
      by (simp add: filter_id_conv)
    with ne g(2) have 1: "\<exists>new_nodes. new_nodes \<noteq> [] \<and>
        nodes (sankey_obj s') = nodes (sankey_obj s) @ new_nodes" by simp
    from round obtain lp d t where "resolve_tie_random (rnd i) s = Inr lp"
      and c': "candidates s' = AList.delete lp d"
      by (rule rcv_round_tallies)
    with assms(4) have "candidates s' = AList.delete last_place d" by simp
    then have "last_place \<notin> set (map fst (candidates s'))"
      using delete_notin_dom [of last_place d] by simp
    then have "filter (\<lambda>c. c \<noteq> last_place) (map fst (candidates s')) = map fst (candidates s')"
      by (auto simp: filter_id_conv)
    with g(3) ne have 2: "\<exists>new_links. new_links \<noteq> [] \<and>
        links (sankey_obj s') = links (sankey_obj s) @ new_links" by auto
    from 1 2 show ?thesis by blast
  qed
  from empty grows show ?thesis by blast
qed

theorem round_without_transfers_witness:
  "length demo_trace3 = 3 \<and>
   resolve_tie_random 0 (snd (demo_trace3 ! 0)) = Inr ''C'' \<and>
   map_of (candidates (snd (demo_trace3 ! 0))) ''C'' = Some [] \<and>
   fst (demo_trace3 ! Suc 0) = fst (demo_trace3 ! 0) \<and>
   snd (demo_trace3 ! Suc 0) =
     (snd (demo_trace3 ! 0))\<lparr> eliminated := finsert ''C'' (eliminated (snd (demo_trace3 ! 0))),
                               candidates := AList.delete ''C'' (candidates (snd (demo_trace3 ! 0))) \<rparr> \<and>
   sankey_obj (snd (demo_trace3 ! Suc 0)) = sankey_obj (snd (demo_trace3 ! 0)) \<and>
   resolve_tie_random 0 (snd (demo_trace3 ! Suc 0)) = Inr ''B'' \<and>
   map_of (candidates (snd (demo_trace3 ! Suc 0))) ''B''
     = Some [\<lparr> weight = 1, ranking = [''B'', ''A''] \<rparr>, \<lparr> weight = 1, ranking = [''B''] \<rparr>] \<and>
   (\<exists>new_nodes new_links.
       new_nodes \<noteq> [] \<and> new_links \<noteq> [] \<and>
       nodes (sankey_obj (snd (demo_trace3 ! Suc (Suc 0))))
         = nodes (sankey_obj (snd (demo_trace3 ! Suc 0))) @ new_nodes \<and>
       links (sankey_obj (snd (demo_trace3 ! Suc (Suc 0))))
         = links (sankey_obj (snd (demo_trace3 ! Suc 0))) @ new_links)"
proof -
  let ?T = "single_winner_trace (\<lambda>_. 0) (Election demo_ballots [''A'', ''B'', ''C''])"
  let ?B = "[\<lparr> weight = 1, ranking = [''B'', ''A''] \<rparr>, \<lparr> weight = (1::int), ranking = [''B''] \<rparr>]"
  have len: "length ?T = 3" by (rule demo_three_len)
  then have i0: "Suc 0 < length ?T" and i1: "Suc (Suc 0) < length ?T" by simp_all
  have p0: "?T ! 0 = (fst (?T ! 0), snd (?T ! 0))"
    and p1: "?T ! Suc 0 = (fst (?T ! Suc 0), snd (?T ! Suc 0))"
    and p2: "?T ! Suc (Suc 0) = (fst (?T ! Suc (Suc 0)), snd (?T ! Suc (Suc 0)))"
    by simp_all
  have lp0: "resolve_tie_random 0 (snd (?T ! 0)) = Inr ''C''" by code_simp
  have held0: "map_of (candidates (snd (?T ! 0))) ''C'' = Some []" by code_simp
  have lp1: "resolve_tie_random 0 (snd (?T ! Suc 0)) = Inr ''B''" by code_simp
  have held1: "map_of (candidates (snd (?T ! Suc 0))) ''B'' = Some ?B" by code_simp
  have ne: "?B \<noteq> []" by simp
  note r0 = round_without_transfers [of 0 "\<lambda>_. 0", OF i0 p0 p1 lp0 held0, THEN conjunct1, rule_format, OF refl]
  note r1 = round_without_transfers [of "Suc 0" "\<lambda>_. 0", OF i1 p1 p2 lp1 held1, THEN conjunct2, rule_format, OF ne]
  from len lp0 held0 lp1 held1 r0 r1 show ?thesis unfolding demo_trace3_def by blast
qed

section \<open>The tie-break\<close>

lemma set_tied_candidates:
  "set (tied_candidates d t xs start) = set start \<union> {c \<in> set xs. tally d c = t}"
  unfolding tied_candidates_def by (induction xs arbitrary: start) auto

lemma distinct_tied_candidates:
  "distinct start \<Longrightarrow> distinct (tied_candidates d t xs start)"
  unfolding tied_candidates_def by (induction xs arbitrary: start) auto

lemma last_place_minimal:
  assumes "rev (sort_candidates s) = c0 # rest"
  shows "c0 \<in> set (map fst (candidates s))"
    and "\<forall>c \<in> set (map fst (candidates s)). tally (candidates s) c0 \<le> tally (candidates s) c"
    and "set (c0 # rest) = set (map fst (candidates s))"
proof -
  let ?f = "\<lambda>g. - int (tally (candidates s) g)"
  from assms have eq: "sort_candidates s = rev rest @ [c0]"
    by (metis rev_rev_ident rev.simps(2))
  have "set (sort_candidates s) = set (map fst (candidates s))"
    by (simp add: sort_candidates_def)
  with eq show keys: "set (c0 # rest) = set (map fst (candidates s))" by auto
  then show "c0 \<in> set (map fst (candidates s))" by auto
  have "sorted (map ?f (sort_candidates s))"
    unfolding sort_candidates_def by (rule sorted_sort_key)
  with eq have "\<forall>c \<in> set rest. ?f c \<le> ?f c0" by (simp add: sorted_append)
  then have "\<forall>c \<in> set (c0 # rest). tally (candidates s) c0 \<le> tally (candidates s) c" by simp
  with keys show "\<forall>c \<in> set (map fst (candidates s)). tally (candidates s) c0 \<le> tally (candidates s) c"
    by simp
qed

text \<open>
  Claim C4. The candidate to eliminate is \<open>random.choice\<close> of a list that holds, each exactly
  once, all the active candidates whose ballot count is the minimum of the counts, wherever
  they stand in the ranking: the choice is the entry at a random index of that list, so a
  uniform index is a uniform choice among the tied candidates.
\<close>

theorem tie_break_among_all_minimal:
  assumes "candidates s \<noteq> []"
  shows "\<exists>tied. tied \<noteq> [] \<and> distinct tied \<and>
           set tied = {c \<in> set (map fst (candidates s)).
                         \<forall>c' \<in> set (map fst (candidates s)).
                            tally (candidates s) c \<le> tally (candidates s) c'} \<and>
           (\<forall>r. resolve_tie_random r s = Inr (tied ! (r mod length tied)))"
proof -
  have "length (sort_candidates s) = length (candidates s)"
    by (simp add: sort_candidates_def)
  with assms have "rev (sort_candidates s) \<noteq> []" by auto
  then obtain c0 rest where rv: "rev (sort_candidates s) = c0 # rest"
    by (cases "rev (sort_candidates s)") auto
  note lm = last_place_minimal [OF rv]
  let ?t = "tally (candidates s) c0"
  let ?tied = "tied_candidates (candidates s) ?t (c0 # rest) [c0]"
  have set_tied: "set ?tied = {c \<in> set (map fst (candidates s)). tally (candidates s) c = ?t}"
    using lm(1,3) by (auto simp: set_tied_candidates)
  have "{c \<in> set (map fst (candidates s)). tally (candidates s) c = ?t} =
        {c \<in> set (map fst (candidates s)).
           \<forall>c' \<in> set (map fst (candidates s)). tally (candidates s) c \<le> tally (candidates s) c'}"
    using lm(1,2) by (auto intro: antisym)
  with set_tied have 1: "set ?tied = {c \<in> set (map fst (candidates s)).
           \<forall>c' \<in> set (map fst (candidates s)). tally (candidates s) c \<le> tally (candidates s) c'}"
    by simp
  have "c0 \<in> set ?tied" by (simp add: set_tied_candidates)
  then have 2: "?tied \<noteq> []" by auto
  have 3: "distinct ?tied" by (rule distinct_tied_candidates) simp
  have 4: "\<forall>r. resolve_tie_random r s = Inr (?tied ! (r mod length ?tied))"
    using rv by (simp add: resolve_tie_random_def Let_def)
  from 1 2 3 4 show ?thesis by blast
qed

theorem tie_break_among_all_minimal_witness:
  "candidates (snd (demo_trace ! 0)) \<noteq> [] \<and>
   tally (candidates (snd (demo_trace ! 0))) ''A'' = 2 \<and>
   tally (candidates (snd (demo_trace ! 0))) ''B'' = 2 \<and>
   resolve_tie_random 0 (snd (demo_trace ! 0)) = Inr ''B'' \<and>
   resolve_tie_random 1 (snd (demo_trace ! 0)) = Inr ''A'' \<and>
   (\<exists>tied. tied \<noteq> [] \<and> distinct tied \<and>
       set tied = {c \<in> set (map fst (candidates (snd (demo_trace ! 0)))).
                     \<forall>c' \<in> set (map fst (candidates (snd (demo_trace ! 0)))).
                        tally (candidates (snd (demo_trace ! 0))) c
                          \<le> tally (candidates (snd (demo_trace ! 0))) c'} \<and>
       (\<forall>r. resolve_tie_random r (snd (demo_trace ! 0)) = Inr (tied ! (r mod length tied))))"
proof -
  let ?s = "snd (single_winner_trace (\<lambda>_. 0) (Election demo_ballots [''A'', ''B'']) ! 0)"
  have ne: "candidates ?s \<noteq> []" by code_simp
  have v: "tally (candidates ?s) ''A'' = 2" "tally (candidates ?s) ''B'' = 2"
    "resolve_tie_random 0 ?s = Inr ''B''" "resolve_tie_random 1 ?s = Inr ''A''"
    by code_simp+
  from tie_break_among_all_minimal [OF ne] ne v show ?thesis unfolding demo_trace_def by blast
qed

section \<open>Elections with no candidate or with one\<close>

lemma assign_loop_single:
  "\<forall>b \<in> set bs. \<exists>rest. ranking b = a # rest \<Longrightarrow> assign_loop bs [(a, h)] = Inr [(a, h @ bs)]"
  by (induction bs arbitrary: h) (auto simp: award_def)

text \<open>
  Claim C5, as stated: without candidates the run fails with a \<open>NoCandidatesError\<close>, and
  with one candidate it ends at once with that candidate as winner. Without candidates and
  ballots the run raises the \<open>IndexError\<close> of \<open>list(self.candidates.keys())[0]\<close>; with the
  one candidate \<open>A\<close> and a ballot that ranks \<open>B\<close> first, the assignment raises a \<open>KeyError\<close>.
\<close>

theorem no_candidates_index_error:
  "single_winner_rcv (\<lambda>_. 0) (Election [] ([] :: string list)) = Inl IndexError \<and>
   single_winner_rcv (\<lambda>_. 0) (Election [\<lparr> weight = 1, ranking = [''B''] \<rparr>] [''A'']) = Inl KeyError"
  by code_simp

text \<open>
  Claim C5, amended. Without registered candidates the run raises: an \<open>IndexError\<close> at the
  read of the winner when there is no ballot, and otherwise at the assignment of the first
  ballot, an \<open>IndexError\<close> when its ranking is empty and a \<open>KeyError\<close> when not. With exactly
  one registered candidate and ballots that all rank it first, the run returns after zero
  rounds, with that candidate as winner and holder of all the ballots.
\<close>

theorem degenerate_elections:
  "single_winner_rcv rnd (Election [] ([] :: 'c list)) = Inl IndexError \<and>
   single_winner_rcv rnd (Election (b # bs) ([] :: 'c list))
     = Inl (if ranking b = [] then IndexError else KeyError) \<and>
   ((\<forall>b \<in> set bs'. \<exists>rest. ranking b = a # rest) \<longrightarrow>
      single_winner_rcv rnd (Election bs' [a]) =
        Inr \<lparr> ballots = bs', candidates = [(a, bs')], winner = Some a, eliminated = {||},
              number_of_candidates = 1,
              sankey_obj = \<lparr> nodes = first_nodes [(a, bs')], links = [] \<rparr> \<rparr> \<and>
      length (single_winner_trace rnd (Election bs' [a])) = 1)"
proof -
  have 1: "single_winner_rcv rnd (Election [] ([] :: 'c list)) = Inl IndexError"
    by (simp add: single_winner_rcv_def rcv_start_def assign_ballots_def Election_def loop_guard_def)
  have 2: "single_winner_rcv rnd (Election (b # bs) ([] :: 'c list))
     = Inl (if ranking b = [] then IndexError else KeyError)"
    by (simp add: single_winner_rcv_def rcv_start_def assign_ballots_def Election_def award_def
          split: list.splits)
  have 3: "single_winner_rcv rnd (Election bs' [a]) =
        Inr \<lparr> ballots = bs', candidates = [(a, bs')], winner = Some a, eliminated = {||},
              number_of_candidates = 1,
              sankey_obj = \<lparr> nodes = first_nodes [(a, bs')], links = [] \<rparr> \<rparr> \<and>
      length (single_winner_trace rnd (Election bs' [a])) = 1"
    if "\<forall>b \<in> set bs'. \<exists>rest. ranking b = a # rest"
  proof -
    from assign_loop_single [OF that, of "[]"]
    have st: "rcv_start (Election bs' [a]) =
      Inr (1, \<lparr> ballots = bs', candidates = [(a, bs')], winner = None, eliminated = {||},
              number_of_candidates = 1,
              sankey_obj = \<lparr> nodes = first_nodes [(a, bs')], links = [] \<rparr> \<rparr>)"
      by (simp add: rcv_start_def assign_ballots_def Election_def)
    then show ?thesis
      by (simp add: single_winner_rcv_def single_winner_trace_def loop_guard_def)
  qed
  from 1 2 3 show ?thesis by blast
qed

theorem degenerate_elections_witness:
  "single_winner_rcv (\<lambda>_. 0) (Election [\<lparr> weight = 1, ranking = [''A'', ''B''] \<rparr>] [''A'']) =
     Inr \<lparr> ballots = [\<lparr> weight = 1, ranking = [''A'', ''B''] \<rparr>],
           candidates = [(''A'', [\<lparr> weight = 1, ranking = [''A'', ''B''] \<rparr>])],
           winner = Some ''A'', eliminated = {||}, number_of_candidates = 1,
           sankey_obj = \<lparr> nodes = [\<lparr> name = ''A'', layer = 1, node_value = Some 1 \<rparr>], links = [] \<rparr> \<rparr> \<and>
   length (single_winner_trace (\<lambda>_. 0) (Election [\<lparr> weight = 1, ranking = [''A'', ''B''] \<rparr>] [''A''])) = 1 \<and>
   single_winner_rcv (\<lambda>_. 0) (Election [] ([] :: string list)) = Inl IndexError"
proof -
  have h: "\<forall>b \<in> set [\<lparr> weight = 1, ranking = [''A'', ''B''] \<rparr>]. \<exists>rest. ranking b = ''A'' # rest"
    by simp
  have n: "first_nodes [(''A'', [\<lparr> weight = 1, ranking = [''A'', ''B''] \<rparr>])]
      = [\<lparr> name = ''A'', layer = 1, node_value = Some 1 \<rparr>]"
    by (simp add: first_nodes_def tally_def)
  note d = degenerate_elections [of "\<lambda>_. 0" "\<lparr> weight = 1, ranking = [''A'', ''B''] \<rparr>" "[]"
      "[\<lparr> weight = 1, ranking = [''A'', ''B''] \<rparr>]" "''A''"]
  from d h n show ?thesis by simp
qed


section \<open>Independence of the ballot weights\<close>

lemma ranking_unweighted [simp]: "ranking (unweighted b) = ranking b"
  by (simp add: unweighted_def)

lemma keys_unweighted_held [simp]: "map fst (unweighted_held d) = map fst d"
  by (induction d) (auto simp: unweighted_held_def)

lemma length_unweighted_held [simp]: "length (unweighted_held d) = length d"
  by (simp add: unweighted_held_def)

lemma map_of_unweighted_held:
  "map_of (unweighted_held d) c = map_option (map unweighted) (map_of d c)"
  by (induction d) (auto simp: unweighted_held_def)

lemma update_unweighted_held:
  "AList.update c (map unweighted h) (unweighted_held d) = unweighted_held (AList.update c h d)"
  by (induction d) (auto simp: unweighted_held_def)

lemma delete_unweighted_held:
  "AList.delete c (unweighted_held d) = unweighted_held (AList.delete c d)"
  by (induction d) (auto simp: unweighted_held_def)

lemma tally_unweighted_held [simp]: "tally (unweighted_held d) c = tally d c"
  by (simp add: tally_def map_of_unweighted_held split: option.splits)

lemma award_unweighted:
  "award c (unweighted b) (unweighted_held d) = map_sum id unweighted_held (award c b d)"
  using update_unweighted_held [of c _ d, symmetric]
  by (auto simp: award_def map_of_unweighted_held split: option.splits)

lemma assign_loop_unweighted:
  "assign_loop (map unweighted bs) (unweighted_held d) = map_sum id unweighted_held (assign_loop bs d)"
proof (induction bs arbitrary: d)
  case (Cons b bs)
  show ?case
  proof (cases "ranking b")
    case Nil
    then show ?thesis by simp
  next
    case (Cons c rest)
    with Cons.IH show ?thesis
      by (cases "award c b d") (simp_all add: award_unweighted)
  qed
qed simp

lemma next_choice_unweighted [simp]: "next_choice E (unweighted b) = next_choice E b"
  by (simp add: next_choice_def)

lemma transfer_loop_unweighted:
  "transfer_loop E (map unweighted bs) (unweighted_held d, t)
     = map_sum id (map_prod unweighted_held id) (transfer_loop E bs (d, t))"
proof (induction bs arbitrary: d t)
  case (Cons b bs)
  show ?case
  proof (cases "next_choice E b")
    case None
    with Cons.IH show ?thesis by simp
  next
    case (Some c)
    with Cons.IH show ?thesis
      by (cases "award c b d") (simp_all add: award_unweighted)
  qed
qed simp

lemma erase_weights_fields [simp]:
  "ballots (erase_weights s) = map unweighted (ballots s)"
  "candidates (erase_weights s) = unweighted_held (candidates s)"
  "eliminated (erase_weights s) = eliminated s"
  "winner (erase_weights s) = winner s"
  "number_of_candidates (erase_weights s) = number_of_candidates s"
  "sankey_obj (erase_weights s) = sankey_obj s"
  by (simp_all add: erase_weights_def)

lemma sort_candidates_erase [simp]: "sort_candidates (erase_weights s) = sort_candidates s"
  by (simp add: sort_candidates_def)

lemma resolve_tie_random_erase [simp]:
  "resolve_tie_random r (erase_weights s) = resolve_tie_random r s"
  by (cases "rev (sort_candidates s)") (simp_all add: resolve_tie_random_def tied_candidates_def)

lemma erase_weights_round_empty:
  "erase_weights (s\<lparr> eliminated := E, candidates := d \<rparr>)
     = (erase_weights s)\<lparr> eliminated := E, candidates := unweighted_held d \<rparr>"
  by (simp add: erase_weights_def)

lemma erase_weights_round:
  "erase_weights (s\<lparr> eliminated := E, candidates := d, sankey_obj := g \<rparr>)
     = (erase_weights s)\<lparr> eliminated := E, candidates := unweighted_held d, sankey_obj := g \<rparr>"
  by (simp add: erase_weights_def)

lemma loop_guard_erase [simp]: "loop_guard (erase_weights s) = loop_guard s"
  by (simp add: loop_guard_def)

lemma starting_values_unweighted:
  "map (\<lambda>(c, bs). (c, length bs)) (unweighted_held d) = map (\<lambda>(c, bs). (c, length bs)) d"
  by (induction d) (auto simp: unweighted_held_def)

lemma rcv_round_erase:
  "rcv_round r l (erase_weights s) = map_sum id (map_prod id erase_weights) (rcv_round r l s)"
proof (cases "resolve_tie_random r s")
  case (Inl e)
  then show ?thesis by (simp add: rcv_round_def)
next
  case lp: (Inr last_place)
  show ?thesis
  proof (cases "map_of (candidates s) last_place")
    case None
    with lp show ?thesis by (simp add: rcv_round_def map_of_unweighted_held)
  next
    case (Some held)
    show ?thesis
    proof (cases "held = []")
      case True
      with lp Some show ?thesis
        by (simp add: rcv_round_def map_of_unweighted_held delete_unweighted_held
              erase_weights_round_empty)
    next
      case False
      let ?E = "finsert last_place (eliminated s)"
      show ?thesis
      proof (cases "transfer_loop ?E held (candidates s, [])")
        case (Inl e)
        with lp Some False show ?thesis
          by (simp add: rcv_round_def map_of_unweighted_held transfer_loop_unweighted)
      next
        case (Inr dt)
        obtain d t where dt: "dt = (d, t)" by (cases dt)
        let ?sv = "map (\<lambda>(c, bs). (c, length bs)) (candidates s)"
        let ?d' = "AList.delete last_place d"
        let ?ns = "nodes (sankey_obj s) @
          map (\<lambda>c. \<lparr> name = c, layer = l + 1, node_value = None \<rparr>)
              (filter (\<lambda>c. c |\<notin>| ?E) (map fst ?d'))"
        have tl: "transfer_loop ?E (map unweighted held) (unweighted_held (candidates s), [])
            = Inr (unweighted_held d, t)"
          using Inr dt by (simp add: transfer_loop_unweighted)
        show ?thesis
        proof (cases "link_loop (self_link ?ns (l + 1) ?sv)
                        (filter (\<lambda>c. c \<noteq> last_place) (map fst ?d')) []")
          case (Inl e)
          with lp Some False Inr dt tl show ?thesis
            by (simp add: rcv_round_def map_of_unweighted_held delete_unweighted_held
                  starting_values_unweighted Let_def)
        next
          case sl: (Inr self_links)
          show ?thesis
          proof (cases "link_loop (real_link ?ns (l + 1) ?sv last_place t) (map fst t) self_links")
            case (Inl e)
            with lp Some False Inr dt tl sl show ?thesis
              by (simp add: rcv_round_def map_of_unweighted_held delete_unweighted_held
                    starting_values_unweighted Let_def)
          next
            case al: (Inr all_links)
            with lp Some False Inr dt tl sl show ?thesis
              by (simp add: rcv_round_def map_of_unweighted_held delete_unweighted_held
                    starting_values_unweighted Let_def erase_weights_round)
          qed
        qed
      qed
    qed
  qed
qed

lemma rcv_loop_erase:
  "rcv_loop rnd (l, erase_weights s) = map_sum id (map_prod id erase_weights) (rcv_loop rnd (l, s))"
proof (induction rnd "(l, s)" arbitrary: l s rule: rcv_loop.induct)
  case (1 rnd l s)
  show ?case
  proof (cases "loop_guard s")
    case False
    then show ?thesis by simp
  next
    case True
    show ?thesis
    proof (cases "rcv_round (rnd 0) l s")
      case (Inl e)
      with True show ?thesis by (simp add: rcv_round_erase)
    next
      case (Inr ls')
      obtain l' s' where ls': "ls' = (l', s')" by (cases ls')
      from "1.hyps" [OF True Inr [unfolded ls']] True Inr ls' show ?thesis
        by (simp add: rcv_round_erase)
    qed
  qed
qed

lemma rcv_trace_erase:
  "rcv_trace rnd (l, erase_weights s) = map (map_prod id erase_weights) (rcv_trace rnd (l, s))"
proof (induction rnd "(l, s)" arbitrary: l s rule: rcv_trace.induct)
  case (1 rnd l s)
  show ?case
  proof (cases "loop_guard s")
    case False
    then show ?thesis by simp
  next
    case True
    show ?thesis
    proof (cases "rcv_round (rnd 0) l s")
      case (Inl e)
      with True show ?thesis by (simp add: rcv_round_erase)
    next
      case (Inr ls')
      obtain l' s' where ls': "ls' = (l', s')" by (cases ls')
      from "1.hyps" [OF True Inr [unfolded ls']] True Inr ls' show ?thesis
        by (simp add: rcv_round_erase)
    qed
  qed
qed

lemma first_nodes_unweighted [simp]: "first_nodes (unweighted_held d) = first_nodes d"
  by (simp add: first_nodes_def)

lemma rcv_start_erase:
  "rcv_start (erase_weights s) = map_sum id (map_prod id erase_weights) (rcv_start s)"
  by (cases "assign_loop (ballots s) (candidates s)")
     (simp_all add: rcv_start_def assign_ballots_def assign_loop_unweighted erase_weights_def)

lemma erase_weights_winner:
  "erase_weights (s\<lparr> winner := w \<rparr>) = (erase_weights s)\<lparr> winner := w \<rparr>"
  by (simp add: erase_weights_def)

lemma single_winner_rcv_erase:
  "single_winner_rcv rnd (erase_weights s) = map_sum id erase_weights (single_winner_rcv rnd s)"
proof (cases "rcv_start s")
  case (Inl e)
  then show ?thesis by (simp add: single_winner_rcv_def rcv_start_erase)
next
  case st: (Inr ls)
  obtain l s1 where ls: "ls = (l, s1)" by (cases ls)
  show ?thesis
  proof (cases "rcv_loop rnd (l, s1)")
    case (Inl e)
    with st ls show ?thesis
      by (simp add: single_winner_rcv_def rcv_start_erase rcv_loop_erase del: rcv_loop.simps)
  next
    case (Inr ls')
    obtain l' s' where ls': "ls' = (l', s')" by (cases ls')
    with st ls Inr show ?thesis
      by (cases "map fst (candidates s')")
         (simp_all add: single_winner_rcv_def rcv_start_erase rcv_loop_erase erase_weights_winner
            del: rcv_loop.simps)
  qed
qed

lemma single_winner_trace_erase:
  "single_winner_trace rnd (erase_weights s)
     = map (map_prod id erase_weights) (single_winner_trace rnd s)"
proof (cases "rcv_start s")
  case (Inl e)
  then show ?thesis by (simp add: single_winner_trace_def rcv_start_erase)
next
  case (Inr ls)
  then show ?thesis
    by (cases ls)
       (simp add: single_winner_trace_def rcv_start_erase rcv_trace_erase del: rcv_trace.simps)
qed

lemma droop_erase: "droop seats (erase_weights s) = droop seats s"
  by (simp add: droop_def map_of_unweighted_held split: option.splits)

lemma Election_erase: "Election (map unweighted bs) cs = erase_weights (Election bs cs)"
proof -
  have aux: "\<forall>p \<in> set d. snd p = [] \<Longrightarrow> unweighted_held d = d"
    for d :: "('c \<times> 'c ballot list) list"
    by (induction d) (auto simp: unweighted_held_def)
  have "unweighted_held (candidates (Election bs cs)) = candidates (Election bs cs)"
    by (rule aux) (rule candidates_Election(3))
  then show ?thesis by (simp add: erase_weights_def Election_def)
qed

lemma unweighted_eq: "ranking b = ranking b' \<Longrightarrow> unweighted b = unweighted b'"
  by (cases b, cases b') (simp add: unweighted_def)

lemma map_unweighted_eq:
  "map ranking bs = map ranking bs' \<Longrightarrow> map unweighted bs = map unweighted bs'"
proof (induction bs arbitrary: bs')
  case (Cons b bs)
  then obtain b' bs'' where "bs' = b' # bs''" by (cases bs') auto
  with Cons show ?case by (auto intro: unweighted_eq)
qed simp


section \<open>Two elections that differ in the weights\<close>

lemma rankings_unweighted_held:
  "map (\<lambda>(c, h). (c, map ranking h)) (unweighted_held d) = map (\<lambda>(c, h). (c, map ranking h)) d"
  by (induction d) (auto simp: unweighted_held_def)

lemma erase_weights_observed:
  assumes "erase_weights s = erase_weights s'"
  shows "map (\<lambda>(c, h). (c, map ranking h)) (candidates s)
           = map (\<lambda>(c, h). (c, map ranking h)) (candidates s')"
    and "tally (candidates s) c = tally (candidates s') c"
    and "eliminated s = eliminated s'" and "winner s = winner s'"
    and "number_of_candidates s = number_of_candidates s'"
    and "sankey_obj s = sankey_obj s'"
    and "droop seats s = droop seats s'"
proof -
  from assms have "candidates (erase_weights s) = candidates (erase_weights s')" by simp
  then have c: "unweighted_held (candidates s) = unweighted_held (candidates s')" by simp
  from rankings_unweighted_held [of "candidates s"] rankings_unweighted_held [of "candidates s'"] c
  show "map (\<lambda>(c, h). (c, map ranking h)) (candidates s)
           = map (\<lambda>(c, h). (c, map ranking h)) (candidates s')" by simp
  from tally_unweighted_held [of "candidates s" c] tally_unweighted_held [of "candidates s'" c] c
  show "tally (candidates s) c = tally (candidates s') c" by simp
  from assms have "eliminated (erase_weights s) = eliminated (erase_weights s')" by simp
  then show "eliminated s = eliminated s'" by simp
  from assms have "winner (erase_weights s) = winner (erase_weights s')" by simp
  then show "winner s = winner s'" by simp
  from assms have "number_of_candidates (erase_weights s) = number_of_candidates (erase_weights s')"
    by simp
  then show "number_of_candidates s = number_of_candidates s'" by simp
  from assms have "sankey_obj (erase_weights s) = sankey_obj (erase_weights s')" by simp
  then show "sankey_obj s = sankey_obj s'" by simp
  from droop_erase [of seats s] droop_erase [of seats s'] assms
  show "droop seats s = droop seats s'" by simp
qed

text \<open>
  Claim C10. Two elections whose ballots have the same rankings in the same order, whatever
  their weights, and the same random draws: both runs raise the same exception, or both
  return, with the same rankings held by each candidate in the same order (hence the same
  tallies), the same eliminated set, winner and flow graph, and the same Droop-quota result
  for every number of seats; and at every round boundary the layer, the eliminated set and
  the tallies are the same.
\<close>

theorem weights_never_matter:
  assumes "map ranking bs = map ranking bs'"
  shows "rel_sum (=)
           (\<lambda>s s'. map (\<lambda>(c, h). (c, map ranking h)) (candidates s)
                      = map (\<lambda>(c, h). (c, map ranking h)) (candidates s') \<and>
                    (\<forall>c. tally (candidates s) c = tally (candidates s') c) \<and>
                    eliminated s = eliminated s' \<and> winner s = winner s' \<and>
                    sankey_obj s = sankey_obj s' \<and>
                    (\<forall>seats. droop seats s = droop seats s'))
           (single_winner_rcv rnd (Election bs cs)) (single_winner_rcv rnd (Election bs' cs)) \<and>
         map (\<lambda>(l, s). (l, eliminated s, map (\<lambda>(c, h). (c, length h)) (candidates s)))
             (single_winner_trace rnd (Election bs cs))
           = map (\<lambda>(l, s). (l, eliminated s, map (\<lambda>(c, h). (c, length h)) (candidates s)))
                 (single_winner_trace rnd (Election bs' cs))"
proof -
  let ?obs = "\<lambda>(l, s). (l, eliminated s, map (\<lambda>(c, h). (c, length h)) (candidates s))"
  from assms have u: "map unweighted bs = map unweighted bs'" by (rule map_unweighted_eq)
  have "map_sum id erase_weights (single_winner_rcv rnd (Election bs cs))
      = single_winner_rcv rnd (Election (map unweighted bs) cs)"
    by (simp add: Election_erase single_winner_rcv_erase)
  also have "\<dots> = map_sum id erase_weights (single_winner_rcv rnd (Election bs' cs))"
    by (simp add: u Election_erase single_winner_rcv_erase)
  finally have run: "map_sum id erase_weights (single_winner_rcv rnd (Election bs cs))
      = map_sum id erase_weights (single_winner_rcv rnd (Election bs' cs))" .
  have 1: "rel_sum (=)
           (\<lambda>s s'. map (\<lambda>(c, h). (c, map ranking h)) (candidates s)
                      = map (\<lambda>(c, h). (c, map ranking h)) (candidates s') \<and>
                    (\<forall>c. tally (candidates s) c = tally (candidates s') c) \<and>
                    eliminated s = eliminated s' \<and> winner s = winner s' \<and>
                    sankey_obj s = sankey_obj s' \<and>
                    (\<forall>seats. droop seats s = droop seats s'))
           (single_winner_rcv rnd (Election bs cs)) (single_winner_rcv rnd (Election bs' cs))"
  proof (cases "single_winner_rcv rnd (Election bs cs)")
    case (Inl e)
    with run show ?thesis by (cases "single_winner_rcv rnd (Election bs' cs)") simp_all
  next
    case (Inr s)
    with run obtain s' where s': "single_winner_rcv rnd (Election bs' cs) = Inr s'"
      and e: "erase_weights s = erase_weights s'"
      by (cases "single_winner_rcv rnd (Election bs' cs)") simp_all
    from erase_weights_observed [OF e] Inr s' show ?thesis by simp
  qed
  have obs: "?obs (map_prod id erase_weights ls) = ?obs ls" for ls :: "nat \<times> 'a election"
    by (cases ls) (simp add: starting_values_unweighted)
  have "map (map_prod id erase_weights) (single_winner_trace rnd (Election bs cs))
      = single_winner_trace rnd (Election (map unweighted bs) cs)"
    by (simp add: Election_erase single_winner_trace_erase)
  also have "\<dots> = map (map_prod id erase_weights) (single_winner_trace rnd (Election bs' cs))"
    by (simp add: u Election_erase single_winner_trace_erase)
  finally have "map ?obs (map (map_prod id erase_weights) (single_winner_trace rnd (Election bs cs)))
      = map ?obs (map (map_prod id erase_weights) (single_winner_trace rnd (Election bs' cs)))"
    by simp
  then have 2: "map ?obs (single_winner_trace rnd (Election bs cs))
      = map ?obs (single_winner_trace rnd (Election bs' cs))"
    unfolding map_map comp_def obs .
  from 1 2 show ?thesis by blast
qed

theorem weights_never_matter_witness:
  "map ranking demo_ballots = map ranking demo_weighted \<and>
   map weight demo_ballots \<noteq> map weight demo_weighted \<and>
   rel_sum (=)
     (\<lambda>s s'. map (\<lambda>(c, h). (c, map ranking h)) (candidates s)
                = map (\<lambda>(c, h). (c, map ranking h)) (candidates s') \<and>
              (\<forall>c. tally (candidates s) c = tally (candidates s') c) \<and>
              eliminated s = eliminated s' \<and> winner s = winner s' \<and>
              sankey_obj s = sankey_obj s' \<and>
              (\<forall>seats. droop seats s = droop seats s'))
     (single_winner_rcv (\<lambda>_. 0) (Election demo_ballots [''A'', ''B'']))
     (single_winner_rcv (\<lambda>_. 0) (Election demo_weighted [''A'', ''B''])) \<and>
   map_sum id winner (single_winner_rcv (\<lambda>_. 0) (Election demo_weighted [''A'', ''B''])) = Inr (Some ''A'')"
proof -
  have h: "map ranking demo_ballots = map ranking demo_weighted"
    by (simp add: demo_ballots_def demo_weighted_def)
  have d: "map weight demo_ballots \<noteq> map weight demo_weighted"
    by (simp add: demo_ballots_def demo_weighted_def)
  have w: "map_sum id winner (single_winner_rcv (\<lambda>_. 0) (Election demo_weighted [''A'', ''B''])) = Inr (Some ''A'')"
    by code_simp
  from weights_never_matter [OF h, of "\<lambda>_. 0" "[''A'', ''B'']"] h d w show ?thesis by blast
qed


section \<open>Rounds that do not raise\<close>

lemma index_of_member: "x \<in> set xs \<Longrightarrow> \<exists>i. index_of xs x = Inr i"
  by (induction xs) auto

lemma link_loop_returns:
  "\<forall>c \<in> set cs. \<exists>l. f c = Inr l \<Longrightarrow> \<exists>ls. link_loop f cs acc = Inr ls"
proof (induction cs arbitrary: acc)
  case (Cons c cs)
  then obtain l where "f c = Inr l" by auto
  with Cons show ?case by simp
qed simp

lemma transfer_loop_returns:
  "\<forall>b \<in> set bs. \<forall>c. next_choice E b = Some c \<longrightarrow> c \<in> set (map fst d) \<Longrightarrow>
     \<exists>d' t'. transfer_loop E bs (d, t) = Inr (d', t')"
proof (induction bs arbitrary: d t)
  case (Cons b bs)
  show ?case
  proof (cases "next_choice E b")
    case None
    with Cons show ?thesis by simp
  next
    case (Some c)
    with Cons.prems have "c \<in> set (map fst d)" by simp
    then obtain h where h: "map_of d c = Some h"
      by (cases "map_of d c") (auto simp: map_of_eq_None_iff)
    then have a: "award c b d = Inr (AList.update c (h @ [b]) d)" by (simp add: award_def)
    have "set (map fst (AList.update c (h @ [b]) d)) = set (map fst d)"
      by (simp only: keys_award [OF a])
    with Cons.prems
    have "\<forall>b' \<in> set bs. \<forall>c'. next_choice E b' = Some c' \<longrightarrow>
            c' \<in> set (map fst (AList.update c (h @ [b]) d))"
      by auto
    from Cons.IH [OF this] Some a show ?thesis by simp
  qed
qed simp

lemma transfers_keys:
  "transfer_loop E bs (d, t) = Inr (d', t') \<Longrightarrow> c \<in> set (map fst t') \<Longrightarrow>
     c \<in> set (map fst t) \<or> (\<exists>b \<in> set bs. next_choice E b = Some c)"
proof (induction bs arbitrary: d t)
  case (Cons b bs)
  show ?case
  proof (cases "next_choice E b")
    case None
    with Cons show ?thesis by auto
  next
    case (Some c0)
    with Cons.prems obtain d1 where
      l: "transfer_loop E bs (d1, record_transfer c0 t) = Inr (d', t')"
      by (auto split: sum.splits)
    have "set (map fst (record_transfer c0 t)) = insert c0 (set (map fst t))"
      by (cases "map_of t c0") (auto simp: record_transfer_def dom_update)
    with Cons.IH [OF l Cons.prems(2)] Some show ?thesis by auto
  qed
qed simp

lemma resolve_tie_random_minimal:
  assumes "candidates s \<noteq> []"
  shows "\<exists>lp. resolve_tie_random r s = Inr lp \<and> lp \<in> set (map fst (candidates s)) \<and>
          (\<forall>c \<in> set (map fst (candidates s)). tally (candidates s) lp \<le> tally (candidates s) c)"
proof -
  have "length (sort_candidates s) = length (candidates s)"
    by (simp add: sort_candidates_def)
  with assms have "rev (sort_candidates s) \<noteq> []" by auto
  then obtain c0 rest where rv: "rev (sort_candidates s) = c0 # rest"
    by (cases "rev (sort_candidates s)") auto
  note lm = last_place_minimal [OF rv]
  let ?t = "tally (candidates s) c0"
  let ?tied = "tied_candidates (candidates s) ?t (c0 # rest) [c0]"
  have set_tied: "set ?tied = {c \<in> set (map fst (candidates s)). tally (candidates s) c = ?t}"
    using lm(1,3) by (auto simp: set_tied_candidates)
  have "c0 \<in> set ?tied" by (simp add: set_tied_candidates)
  then have "?tied \<noteq> []" by auto
  then have "?tied ! (r mod length ?tied) \<in> set ?tied" by simp
  with set_tied lm(2) have "?tied ! (r mod length ?tied) \<in> set (map fst (candidates s)) \<and>
      (\<forall>c \<in> set (map fst (candidates s)).
          tally (candidates s) (?tied ! (r mod length ?tied)) \<le> tally (candidates s) c)"
    by auto
  moreover have "resolve_tie_random r s = Inr (?tied ! (r mod length ?tied))"
    using rv by (simp add: resolve_tie_random_def Let_def)
  ultimately show ?thesis by blast
qed

lemma map_of_starting_values:
  "map_of (map (\<lambda>(c, bs). (c, length bs)) d) c = map_option length (map_of d c)"
  by (induction d) auto

lemma tally_key: "c \<in> set (map fst d) \<Longrightarrow> map_of d c = Some h \<Longrightarrow> tally d c = length h"
  by (simp add: tally_def)

lemma rcv_round_returns:
  assumes inv: "round_inv s"
    and reg: "\<forall>b \<in> set (ballots s). set (ranking b) \<subseteq> set (map fst (candidates s)) \<union> fset (eliminated s)"
    and g: "graph_ok l s"
    and ne: "candidates s \<noteq> []"
  shows "\<exists>l' s'. rcv_round r l s = Inr (l', s')"
proof -
  from resolve_tie_random_minimal [OF ne, of r] obtain lp where
    lp: "resolve_tie_random r s = Inr lp"
    and lp_key: "lp \<in> set (map fst (candidates s))"
    and lp_min: "\<forall>c \<in> set (map fst (candidates s)). tally (candidates s) lp \<le> tally (candidates s) c"
    by blast
  from lp_key obtain held where held: "map_of (candidates s) lp = Some held"
    by (cases "map_of (candidates s) lp") (auto simp: map_of_eq_None_iff)
  show ?thesis
  proof (cases "held = []")
    case True
    with lp held show ?thesis by (simp add: rcv_round_def)
  next
    case False
    let ?E = "finsert lp (eliminated s)"
    let ?sv = "map (\<lambda>(c, bs). (c, length bs)) (candidates s)"
    from inv have cons: "mset (ballots s) = mset (concat (map snd (candidates s))) +
        filter_mset (\<lambda>b. next_choice (eliminated s) b = None) (mset (ballots s))"
      and fresh: "\<forall>c \<in> set (map fst (candidates s)). c |\<notin>| eliminated s"
      by (simp_all add: round_inv_def)
    have held_sub: "set held \<subseteq> set (ballots s)"
    proof
      fix b assume "b \<in> set held"
      with map_of_SomeD [OF held] have "b \<in> set (concat (map snd (candidates s)))" by force
      then have "b \<in># mset (concat (map snd (candidates s)))" by simp
      then have "b \<in># mset (ballots s)" by (subst cons) simp
      then show "b \<in> set (ballots s)" by simp
    qed
    have targets: "\<forall>b \<in> set held. \<forall>c. next_choice ?E b = Some c \<longrightarrow> c \<in> set (map fst (candidates s))"
    proof (intro ballI allI impI)
      fix b c assume b: "b \<in> set held" and c: "next_choice ?E b = Some c"
      from next_choice_not_eliminated [OF c] have "c |\<notin>| ?E" "c \<in> set (ranking b)" by simp_all
      moreover from b held_sub reg have "set (ranking b) \<subseteq> set (map fst (candidates s)) \<union> fset (eliminated s)"
        by blast
      ultimately show "c \<in> set (map fst (candidates s))" by auto
    qed
    from transfer_loop_returns [OF targets, of "[]"] obtain d t where
      tl: "transfer_loop ?E held (candidates s, []) = Inr (d, t)" by blast
    from keys_transfer_loop [OF tl] have keys_d: "map fst d = map fst (candidates s)" by simp
    let ?d' = "AList.delete lp d"
    have keys': "set (map fst ?d') = set (map fst (candidates s)) - {lp}"
      using keys_d by (simp add: delete_keys)
    let ?L = "l + 1"
    let ?ns = "nodes (sankey_obj s) @
      map (\<lambda>c. \<lparr> name = c, layer = ?L, node_value = None \<rparr>)
          (filter (\<lambda>c. c |\<notin>| ?E) (map fst ?d'))"
    have pos: "0 < tally (candidates s) c" if "c \<in> set (map fst (candidates s))" for c
    proof -
      from tally_key [OF lp_key held] False have "0 < tally (candidates s) lp" by simp
      with lp_min that show ?thesis by force
    qed
    have from_ok: "\<exists>n. fake_node_from ?sv ?L c = Inr n \<and> n \<in> set ?ns"
      if c: "c \<in> set (map fst (candidates s))" for c
    proof (cases "?L < 3")
      case True
      with g have l1: "l = 1" by (simp add: graph_ok_def)
      from c obtain h where h: "map_of (candidates s) c = Some h"
        by (cases "map_of (candidates s) c") (auto simp: map_of_eq_None_iff)
      from tally_key [OF c h] have th: "tally (candidates s) c = length h" .
      from g l1 c pos [OF c] th
      have "\<lparr> name = c, layer = 1, node_value = Some (length h) \<rparr> \<in> set (nodes (sankey_obj s))"
        by (auto simp: graph_ok_def)
      with True l1 h show ?thesis
        by (simp add: fake_node_from_def map_of_starting_values)
    next
      case False
      then have l2: "2 \<le> l" by simp
      with g c have "\<lparr> name = c, layer = l, node_value = None \<rparr> \<in> set (nodes (sankey_obj s))"
        by (auto simp: graph_ok_def)
      with False show ?thesis by (simp add: fake_node_from_def)
    qed
    have to_ok: "\<lparr> name = c, layer = ?L, node_value = None \<rparr> \<in> set ?ns"
      if "c \<in> set (map fst ?d')" for c
    proof -
      from that keys' have "c \<in> set (map fst (candidates s))" "c \<noteq> lp" by auto
      with fresh have "c |\<notin>| ?E" by auto
      with that show ?thesis by auto
    qed
    have link_ok: "\<exists>k. make_link ?ns ?L ?sv c_from c_to votes_of c_to = Inr k"
      if "c_from \<in> set (map fst (candidates s))" "c_to \<in> set (map fst ?d')"
        "\<exists>v. map_of votes_of c_to = Some v" for c_from c_to and votes_of :: "('a \<times> nat) list"
    proof -
      from from_ok [OF that(1)] obtain n where n: "fake_node_from ?sv ?L c_from = Inr n"
        and "n \<in> set ?ns" by blast
      from index_of_member [OF this(2)] obtain i where i: "index_of ?ns n = Inr i" by blast
      from index_of_member [OF to_ok [OF that(2)]] obtain j where
        j: "index_of ?ns \<lparr> name = c_to, layer = ?L, node_value = None \<rparr> = Inr j" by blast
      from that(3) obtain v where "map_of votes_of c_to = Some v" by blast
      with n i j show ?thesis by (simp add: make_link_def)
    qed
    have "\<forall>c \<in> set (filter (\<lambda>c. c \<noteq> lp) (map fst ?d')). \<exists>k. self_link ?ns ?L ?sv c = Inr k"
    proof
      fix c assume "c \<in> set (filter (\<lambda>c. c \<noteq> lp) (map fst ?d'))"
      then have c': "c \<in> set (map fst ?d')" by simp
      with keys' have c: "c \<in> set (map fst (candidates s))" by auto
      then have "\<exists>v. map_of ?sv c = Some v"
        by (cases "map_of (candidates s) c") (auto simp: map_of_starting_values map_of_eq_None_iff)
      from link_ok [OF c c' this] show "\<exists>k. self_link ?ns ?L ?sv c = Inr k"
        by (simp add: self_link_def)
    qed
    from link_loop_returns [OF this, of "[]"] obtain self_links where
      sl: "link_loop (self_link ?ns ?L ?sv) (filter (\<lambda>c. c \<noteq> lp) (map fst ?d')) [] = Inr self_links"
      by blast
    have "\<forall>c \<in> set (map fst t). \<exists>k. real_link ?ns ?L ?sv lp t c = Inr k"
    proof
      fix c assume ct: "c \<in> set (map fst t)"
      from transfers_keys [OF tl ct] obtain b where b: "b \<in> set held"
        and nc: "next_choice ?E b = Some c" by auto
      from next_choice_not_eliminated [OF nc] have "c \<noteq> lp" by auto
      moreover from targets b nc have "c \<in> set (map fst (candidates s))" by blast
      ultimately have c': "c \<in> set (map fst ?d')" using keys' by simp
      from ct have "\<exists>v. map_of t c = Some v"
        by (cases "map_of t c") (auto simp: map_of_eq_None_iff)
      from link_ok [OF lp_key c' this] show "\<exists>k. real_link ?ns ?L ?sv lp t c = Inr k"
        by (simp add: real_link_def)
    qed
    from link_loop_returns [OF this, of self_links] obtain all_links where
      al: "link_loop (real_link ?ns ?L ?sv lp t) (map fst t) self_links = Inr all_links"
      by blast
    from lp held False tl sl al show ?thesis
      by (simp add: rcv_round_def Let_def)
  qed
qed

lemma graph_ok_step:
  assumes g: "graph_ok l s" and inv: "round_inv s" and round: "rcv_round r l s = Inr (l', s')"
  shows "graph_ok l' s'"
proof -
  from round obtain lp held where lp: "resolve_tie_random r s = Inr lp"
    and held: "map_of (candidates s) lp = Some held"
    by (rule rcv_round_tallies)
  show ?thesis
  proof (cases "held = []")
    case True
    with held have h0: "map_of (candidates s) lp = Some []" by simp
    note e = rcv_round_empty [OF round lp h0]
    from e(2) have c': "candidates s' = AList.delete lp (candidates s)"
      and n': "sankey_obj s' = sankey_obj s" by simp_all
    have sub: "c \<in> set (map fst (candidates s)) \<and> tally (candidates s') c = tally (candidates s) c"
      if "c \<in> set (map fst (candidates s'))" for c
    proof -
      from that c' have "c \<in> set (map fst (candidates s))" "c \<noteq> lp"
        by (auto simp: delete_keys)
      with c' show ?thesis by (simp add: tally_def)
    qed
    from g e(1) n' sub show ?thesis unfolding graph_ok_def by metis
  next
    case False
    note k = rcv_round_sankey(1,2) [OF round lp held False]
    from round_inv_step [OF inv round]
    have "\<forall>c \<in> set (map fst (candidates s')). c |\<notin>| eliminated s'" by (simp add: round_inv_def)
    then have "filter (\<lambda>c. c |\<notin>| eliminated s') (map fst (candidates s')) = map fst (candidates s')"
      by (simp add: filter_id_conv)
    with k(2) have "\<forall>c \<in> set (map fst (candidates s')).
        \<lparr> name = c, layer = Suc l, node_value = None \<rparr> \<in> set (nodes (sankey_obj s'))"
      by auto
    moreover from g have "1 \<le> l" by (simp add: graph_ok_def)
    ultimately show ?thesis using k(1) by (simp add: graph_ok_def)
  qed
qed

lemma registered_step:
  assumes inv: "round_inv s" and round: "rcv_round r l s = Inr (l', s')"
  shows "set (map fst (candidates s')) \<union> fset (eliminated s')
           = set (map fst (candidates s)) \<union> fset (eliminated s)"
    and "ballots s' = ballots s"
proof -
  from round obtain lp held d t where
    held: "map_of (candidates s) lp = Some held"
    and tl: "transfer_loop (finsert lp (eliminated s)) held (candidates s, []) = Inr (d, t)"
    and c': "candidates s' = AList.delete lp d"
    and e': "eliminated s' = finsert lp (eliminated s)"
    and b': "ballots s' = ballots s"
    by (rule rcv_round_tallies)
  from keys_transfer_loop [OF tl] c'
  have "set (map fst (candidates s')) = set (map fst (candidates s)) - {lp}"
    by (simp add: delete_keys)
  with e' map_of_Some_key [OF held]
  show "set (map fst (candidates s')) \<union> fset (eliminated s')
           = set (map fst (candidates s)) \<union> fset (eliminated s)" by auto
  show "ballots s' = ballots s" by (rule b')
qed

lemma survivors_step:
  assumes inv: "round_inv s" and guard: "loop_guard s" and round: "rcv_round r l s = Inr (l', s')"
  shows "candidates s' \<noteq> []"
proof -
  from round obtain lp held d t where
    held: "map_of (candidates s) lp = Some held"
    and tl: "transfer_loop (finsert lp (eliminated s)) held (candidates s, []) = Inr (d, t)"
    and c': "candidates s' = AList.delete lp d"
    by (rule rcv_round_tallies)
  from inv have dist: "distinct (map fst (candidates s))"
    and card: "length (candidates s) + fcard (eliminated s) = number_of_candidates s"
    by (simp_all add: round_inv_def)
  from keys_transfer_loop [OF tl] have keys: "map fst d = map fst (candidates s)" by simp
  with dist map_of_Some_key [OF held]
  have "Suc (length (AList.delete lp d)) = length d"
    by (intro length_delete_distinct) simp_all
  moreover from keys have "length d = length (candidates s)" by (metis length_map)
  moreover from guard card have "2 \<le> length (candidates s)" by (simp add: loop_guard_def)
  ultimately show ?thesis using c' by auto
qed

lemma rcv_loop_returns:
  assumes "round_inv s" and "graph_ok l s" and "candidates s \<noteq> []"
    and "\<forall>b \<in> set (ballots s). set (ranking b) \<subseteq> set (map fst (candidates s)) \<union> fset (eliminated s)"
  shows "\<exists>l' s'. rcv_loop rnd (l, s) = Inr (l', s') \<and> candidates s' \<noteq> []"
  using assms
proof (induction rnd "(l, s)" arbitrary: l s rule: rcv_loop.induct)
  case (1 rnd l s)
  show ?case
  proof (cases "loop_guard s")
    case False
    with "1.prems"(3) show ?thesis by simp
  next
    case True
    from rcv_round_returns [OF "1.prems"(1,4,2,3), of "rnd 0"] obtain l1 s1 where
      round: "rcv_round (rnd 0) l s = Inr (l1, s1)" by blast
    have "\<exists>l' s'. rcv_loop (\<lambda>i. rnd (Suc i)) (l1, s1) = Inr (l', s') \<and> candidates s' \<noteq> []"
    proof (rule "1.hyps" [OF True round])
      show "round_inv s1" using "1.prems"(1) round by (rule round_inv_step)
      show "graph_ok l1 s1" using "1.prems"(2,1) round by (rule graph_ok_step)
      show "candidates s1 \<noteq> []" using "1.prems"(1) True round by (rule survivors_step)
      show "\<forall>b \<in> set (ballots s1). set (ranking b) \<subseteq> set (map fst (candidates s1)) \<union> fset (eliminated s1)"
        using registered_step [OF "1.prems"(1) round] "1.prems"(4) by simp
    qed
    with True round show ?thesis by simp
  qed
qed

lemma assign_loop_returns:
  "\<forall>b \<in> set bs. ranking b \<noteq> [] \<and> set (ranking b) \<subseteq> set (map fst d) \<Longrightarrow>
     \<exists>d'. assign_loop bs d = Inr d'"
proof (induction bs arbitrary: d)
  case (Cons b bs)
  then obtain c rest where r: "ranking b = c # rest" and c: "c \<in> set (map fst d)"
    by (cases "ranking b") auto
  from c obtain h where h: "map_of d c = Some h"
    by (cases "map_of d c") (auto simp: map_of_eq_None_iff)
  then have a: "award c b d = Inr (AList.update c (h @ [b]) d)" by (simp add: award_def)
  have "set (map fst (AList.update c (h @ [b]) d)) = set (map fst d)"
    by (simp only: keys_award [OF a])
  with Cons.prems
  have "\<forall>b' \<in> set bs. ranking b' \<noteq> [] \<and> set (ranking b') \<subseteq> set (map fst (AList.update c (h @ [b]) d))"
    by auto
  from Cons.IH [OF this] r a show ?case by simp
qed simp

lemma graph_ok_first_nodes:
  "sankey_obj s = \<lparr> nodes = first_nodes (candidates s), links = [] \<rparr> \<Longrightarrow> graph_ok 1 s"
  by (auto simp: graph_ok_def first_nodes_def)

lemma single_winner_rcv_returns:
  assumes "cs \<noteq> []" and "\<forall>b \<in> set bs. ranking b \<noteq> [] \<and> set (ranking b) \<subseteq> set cs"
  shows "\<exists>s. single_winner_rcv rnd (Election bs cs) = Inr s \<and> winner s \<noteq> None"
proof -
  from assms(2) candidates_Election(2) [of bs cs]
  have "\<forall>b \<in> set bs. ranking b \<noteq> [] \<and> set (ranking b) \<subseteq> set (map fst (candidates (Election bs cs)))"
    by simp
  from assign_loop_returns [OF this] obtain d where
    "assign_loop bs (candidates (Election bs cs)) = Inr d" by blast
  then obtain s0 where st: "rcv_start (Election bs cs) = Inr (1, s0)"
    by (simp add: rcv_start_def assign_ballots_def Election_def)
  note s0 = rcv_start_Election [OF st]
  from s0(6) assms(1) have ne: "candidates s0 \<noteq> []" by auto
  from s0(3,4,6) assms(2)
  have reg: "\<forall>b \<in> set (ballots s0). set (ranking b) \<subseteq> set (map fst (candidates s0)) \<union> fset (eliminated s0)"
    by auto
  from rcv_loop_returns [OF s0(2) graph_ok_first_nodes [OF s0(7)] ne reg, of rnd]
  obtain l' s' where "rcv_loop rnd (1, s0) = Inr (l', s')" and "candidates s' \<noteq> []" by blast
  with st show ?thesis
    by (cases "candidates s'") (simp_all add: single_winner_rcv_def del: rcv_loop.simps)
qed

section \<open>Termination and monotonic elimination\<close>

text \<open>
  Claim C3. The run is a total function: the loop is defined by well-founded recursion.
  With at least one registered candidate, there are at most as many round boundaries as
  candidates, hence at most \<open>total_candidate_count - 1\<close> completed rounds; at boundary \<open>i\<close>
  exactly \<open>i\<close> candidates are eliminated, and a further round starts only if \<open>i + 1\<close> is
  below the candidate count. Each round eliminates one candidate that was active and not
  eliminated before, and removes it from the active ones, so that none is eliminated twice.
  When moreover every ballot has a non-empty ranking of registered candidates, no step
  raises: the run returns and sets a winner.
\<close>


theorem elimination_terminates:
  assumes "cs \<noteq> []"
  shows "length (single_winner_trace rnd (Election bs cs)) \<le> card (set cs) \<and>
    (\<forall>i < length (single_winner_trace rnd (Election bs cs)).
        fcard (eliminated (snd (single_winner_trace rnd (Election bs cs) ! i))) = i \<and>
        (loop_guard (snd (single_winner_trace rnd (Election bs cs) ! i)) \<longrightarrow> Suc i < card (set cs))) \<and>
    (\<forall>i. Suc i < length (single_winner_trace rnd (Election bs cs)) \<longrightarrow>
        (\<exists>lp. lp \<in> set (map fst (candidates (snd (single_winner_trace rnd (Election bs cs) ! i)))) \<and>
              lp |\<notin>| eliminated (snd (single_winner_trace rnd (Election bs cs) ! i)) \<and>
              eliminated (snd (single_winner_trace rnd (Election bs cs) ! Suc i))
                = finsert lp (eliminated (snd (single_winner_trace rnd (Election bs cs) ! i))) \<and>
              lp \<notin> set (map fst (candidates (snd (single_winner_trace rnd (Election bs cs) ! Suc i)))))) \<and>
    ((\<forall>b \<in> set bs. ranking b \<noteq> [] \<and> set (ranking b) \<subseteq> set cs) \<longrightarrow>
        (\<exists>s. single_winner_rcv rnd (Election bs cs) = Inr s \<and> winner s \<noteq> None))"
proof -
  define T where "T = single_winner_trace rnd (Election bs cs)"
  define n where "n = card (set cs)"
  from assms have n1: "1 \<le> n" unfolding n_def
    by (metis One_nat_def Suc_leI card_gt_0_iff List.finite_set set_empty)
  have a: "fcard (eliminated (snd (T ! i))) = i \<and> (loop_guard (snd (T ! i)) \<longrightarrow> Suc i < n)"
    if "i < length T" for i
  proof -
    from single_winner_trace_inv(3,4) [of i rnd bs cs] that
    have "number_of_candidates (snd (T ! i)) = n" "fcard (eliminated (snd (T ! i))) = i"
      by (simp_all add: T_def n_def)
    then show ?thesis by (auto simp: loop_guard_def)
  qed
  have b: "length T \<le> n"
  proof (cases "length T")
    case 0
    then show ?thesis by simp
  next
    case (Suc k)
    show ?thesis
    proof (cases k)
      case 0
      with Suc n1 show ?thesis by simp
    next
      case (Suc j)
      with \<open>length T = Suc k\<close> have j: "Suc j < length T" by simp
      from single_winner_trace_step(1) [of j rnd bs cs] j
      have "loop_guard (snd (T ! j))" by (simp add: T_def)
      with a [of j] j have "Suc j < n" by simp
      with Suc \<open>length T = Suc k\<close> show ?thesis by simp
    qed
  qed
  have c: "\<exists>lp. lp \<in> set (map fst (candidates (snd (T ! i)))) \<and>
              lp |\<notin>| eliminated (snd (T ! i)) \<and>
              eliminated (snd (T ! Suc i)) = finsert lp (eliminated (snd (T ! i))) \<and>
              lp \<notin> set (map fst (candidates (snd (T ! Suc i))))"
    if "Suc i < length T" for i
  proof -
    from single_winner_trace_step(2) [of i rnd bs cs] that
    have "rcv_round (rnd i) (fst (T ! i)) (snd (T ! i)) = Inr (fst (T ! Suc i), snd (T ! Suc i))"
      by (simp add: T_def)
    then obtain lp held d t where
      held: "map_of (candidates (snd (T ! i))) lp = Some held"
      and c': "candidates (snd (T ! Suc i)) = AList.delete lp d"
      and e': "eliminated (snd (T ! Suc i)) = finsert lp (eliminated (snd (T ! i)))"
      by (rule rcv_round_tallies)
    from single_winner_trace_inv(1) [of i rnd bs cs] that
    have "\<forall>c \<in> set (map fst (candidates (snd (T ! i)))). c |\<notin>| eliminated (snd (T ! i))"
      by (simp add: T_def round_inv_def)
    with map_of_Some_key [OF held] have "lp |\<notin>| eliminated (snd (T ! i))" by blast
    moreover have "lp \<notin> set (map fst (candidates (snd (T ! Suc i))))"
      using c' delete_notin_dom [of lp d] by simp
    ultimately show ?thesis using map_of_Some_key [OF held] e' by blast
  qed
  have d: "\<exists>s. single_winner_rcv rnd (Election bs cs) = Inr s \<and> winner s \<noteq> None"
    if "\<forall>b \<in> set bs. ranking b \<noteq> [] \<and> set (ranking b) \<subseteq> set cs"
    using assms that by (rule single_winner_rcv_returns)
  from a b c d show ?thesis unfolding T_def n_def by blast
qed

theorem elimination_terminates_witness:
  "[''A'', ''B''] \<noteq> ([] :: string list) \<and>
   card (set [''A'', ''B'']) = 2 \<and>
   length (single_winner_trace (\<lambda>_. 0) (Election demo_ballots [''A'', ''B''])) = 2 \<and>
   loop_guard (snd (single_winner_trace (\<lambda>_. 0) (Election demo_ballots [''A'', ''B'']) ! 0)) \<and>
   fcard (eliminated (snd (single_winner_trace (\<lambda>_. 0) (Election demo_ballots [''A'', ''B'']) ! 1))) = 1 \<and>
   (\<exists>lp. lp \<in> set (map fst (candidates (snd (single_winner_trace (\<lambda>_. 0) (Election demo_ballots [''A'', ''B'']) ! 0)))) \<and>
         lp |\<notin>| eliminated (snd (single_winner_trace (\<lambda>_. 0) (Election demo_ballots [''A'', ''B'']) ! 0)) \<and>
         eliminated (snd (single_winner_trace (\<lambda>_. 0) (Election demo_ballots [''A'', ''B'']) ! Suc 0))
           = finsert lp (eliminated (snd (single_winner_trace (\<lambda>_. 0) (Election demo_ballots [''A'', ''B'']) ! 0))) \<and>
         lp \<notin> set (map fst (candidates (snd (single_winner_trace (\<lambda>_. 0) (Election demo_ballots [''A'', ''B'']) ! Suc 0))))) \<and>
   (\<exists>s. single_winner_rcv (\<lambda>_. 0) (Election demo_ballots [''A'', ''B'']) = Inr s \<and> winner s \<noteq> None)"
proof -
  let ?T = "single_winner_trace (\<lambda>_. 0) (Election demo_ballots [''A'', ''B''])"
  have ne: "[''A'', ''B''] \<noteq> ([] :: string list)" by simp
  have c: "card (set [''A'', ''B'']) = 2" by simp
  have len: "length ?T = 2" by (rule demo_len)
  have g: "loop_guard (snd (?T ! 0))" by code_simp
  from elimination_terminates [OF ne, of "\<lambda>_. 0" demo_ballots] len
  have "fcard (eliminated (snd (?T ! 1))) = 1" by simp
  moreover from elimination_terminates [OF ne, of "\<lambda>_. 0" demo_ballots] len
  have "\<exists>lp. lp \<in> set (map fst (candidates (snd (?T ! 0)))) \<and>
         lp |\<notin>| eliminated (snd (?T ! 0)) \<and>
         eliminated (snd (?T ! Suc 0)) = finsert lp (eliminated (snd (?T ! 0))) \<and>
         lp \<notin> set (map fst (candidates (snd (?T ! Suc 0))))" by simp
  moreover have "\<forall>b \<in> set demo_ballots. ranking b \<noteq> [] \<and> set (ranking b) \<subseteq> set [''A'', ''B'']"
    by (simp add: demo_ballots_def)
  with elimination_terminates [OF ne, of "\<lambda>_. 0" demo_ballots]
  have "\<exists>s. single_winner_rcv (\<lambda>_. 0) (Election demo_ballots [''A'', ''B'']) = Inr s \<and> winner s \<noteq> None"
    by blast
  ultimately show ?thesis using ne c len g by blast
qed

end
